theory Spec2Isabelle
  imports Main "HOL-Library.Multiset" "HOL-Library.List_Lexorder"
begin

section \<open>Strings of the host language\<close>

text \<open>
  A JavaScript string is a sequence of UTF-16 code units; it is modelled as the list of
  their numeric values. Two strings are \<open>===\<close> when the lists are equal, and \<open><\<close> on
  strings compares code units lexicographically, which is the order of
  \<open>HOL-Library.List_Lexorder\<close>. A literal of the source is written \<open>ascii ''...''\<close>.

  \<open>String.prototype.trim\<close> removes the WhiteSpace and LineTerminator code points of
  ECMAScript from both ends. \<open>String.prototype.toUpperCase\<close> depends on the Unicode case
  tables, which are not part of the repository: every function below that calls it takes it
  as the parameter \<open>toUpperCase\<close>, and the theorems hold for every such function.
  \<open>toUpperCaseAscii\<close> is the instance used to evaluate concrete inputs; it agrees with the
  built-in on every string whose code units are all below 128.
\<close>

type_synonym jstring = "nat list"

definition ascii :: "string \<Rightarrow> jstring" where
  "ascii s = map of_char s"

definition isWhiteSpace :: "nat \<Rightarrow> bool" where
  "isWhiteSpace c =
     (c \<in> set [9, 10, 11, 12, 13, 32, 160, 5760, 8232, 8233, 8239, 8287, 12288, 65279]
      \<or> (8192 \<le> c \<and> c \<le> 8202))"

definition trim :: "jstring \<Rightarrow> jstring" where
  "trim s = rev (dropWhile isWhiteSpace (rev (dropWhile isWhiteSpace s)))"

definition toUpperCaseAscii :: "jstring \<Rightarrow> jstring" where
  "toUpperCaseAscii s = map (\<lambda>c. if 97 \<le> c \<and> c \<le> 122 then c - 32 else c) s"

text \<open>
  An optional string field of an object is \<open>None\<close> when the property is missing
  (\<open>undefined\<close>). \<open>truthy\<close> is the test \<open>if (x)\<close> on such a field, and \<open>orElse\<close> is
  \<open>x || y\<close> with a string on the right.
\<close>

definition truthy :: "jstring option \<Rightarrow> bool" where
  "truthy x = (case x of None \<Rightarrow> False | Some s \<Rightarrow> s \<noteq> [])"

definition orElse :: "jstring option \<Rightarrow> jstring \<Rightarrow> jstring" where
  "orElse x y = (case x of None \<Rightarrow> y | Some s \<Rightarrow> if s \<noteq> [] then s else y)"

section \<open>The validator (src/admin/validator.js)\<close>

subsection \<open>Data\<close>

text \<open>
  The fields of an entry are those the validator reads, strings as they come from the
  sheet. The records keep the field names of the source, but for a prefix where two
  objects share a name (\<open>res_\<close> for a result, \<open>w_\<close> for a winner, \<open>sched_\<close> for a
  schedule) and for \<open>match_count\<close>, the field \<open>count\<close> of the object \<open>matchNumbers\<close>
  returns.
\<close>

record entry =
  platform :: jstring
  gameId :: jstring
  whatsapp :: jstring
  chosenNumbers :: "int list"
  drawDate :: jstring
  contest :: jstring
  status :: "jstring option"
  csvStatus :: "jstring option"
  validity :: "jstring option"
  invalidReasonCode :: "jstring option"

record contestResult =
  res_contest :: jstring
  res_drawDate :: jstring
  winningNumbers :: "int list"

record matchResult =
  match_count :: nat
  matchedNumbers :: "int list"

record prizeTier =
  tier :: jstring
  color :: jstring
  priority :: nat
  badge :: jstring

datatype gate = RECHARGE_INVALID | VALIDITY_UNKNOWN | STATUS_INVALID | STATUS_NOT_VALIDATED

text \<open>
  The object returned by \<open>validateEntry\<close> has one of three shapes:
  \<open>{validated: false, message, gate, validity | status}\<close>,
  \<open>{validated: false, message}\<close> and
  \<open>{validated: true, matches, matchedNumbers, prizeTier, winningNumbers}\<close>.
  In the third, \<open>winningNumbers\<close> is the property of that name of the looked-up result;
  it is \<open>None\<close> when that object has no such property (\<open>undefined\<close>).
\<close>

datatype validation =
    Rejected jstring gate jstring
  | NoWinningNumbers jstring
  | Validated nat "int list" prizeTier "int list option"

fun validated :: "validation \<Rightarrow> bool" where
  "validated (Validated m ms p w) = True"
| "validated _ = False"

fun gate_of :: "validation \<Rightarrow> gate option" where
  "gate_of (Rejected msg g s) = Some g"
| "gate_of _ = None"

fun message_of :: "validation \<Rightarrow> jstring option" where
  "message_of (Rejected msg g s) = Some msg"
| "message_of (NoWinningNumbers msg) = Some msg"
| "message_of _ = None"

fun matches :: "validation \<Rightarrow> nat" where
  "matches (Validated m ms p w) = m"
| "matches _ = 0"

fun matched_of :: "validation \<Rightarrow> int list" where
  "matched_of (Validated m ms p w) = ms"
| "matched_of _ = []"

fun prizeTier_of :: "validation \<Rightarrow> prizeTier option" where
  "prizeTier_of (Validated m ms p w) = Some p"
| "prizeTier_of _ = None"

text \<open>
  \<open>matches\<close> is read by the source only behind the test \<open>validation.validated\<close>; its
  value 0 on the other shapes is never used by the functions below.
\<close>

definition allowedValidStatuses :: "jstring list" where
  "allowedValidStatuses = [ascii ''VALID'', ascii ''VALIDATED'', ascii ''VALIDADO'']"

definition blockedPendingStatuses :: "jstring list" where
  "blockedPendingStatuses = [ascii ''GENERATED'', ascii ''PENDING'', ascii ''ALL PENDING'']"

text \<open>The source's literal for the Portuguese spelling of INVALID: its fourth code unit is
  U+00C1 (A with acute accent), the other seven are ASCII.\<close>

definition str_INVALIDO :: jstring where
  "str_INVALIDO = ascii ''INV'' @ [193] @ ascii ''LIDO''"

subsection \<open>Objects used as dictionaries\<close>

text \<open>
  \<open>contestResults\<close> and \<open>grouped\<close> are plain objects (\<open>{}\<close>) used as dictionaries
  with string keys. A plain object inherits the properties of \<open>Object.prototype\<close>: reading
  \<open>obj[key]\<close> for a key under which nothing was stored gives \<open>undefined\<close>, unless
  the key is one of the twelve names below, for which it gives the inherited value. That
  value is a function, or for \<open>__proto__\<close> the object \<open>Object.prototype\<close> itself: it
  is truthy, it has no property \<open>winningNumbers\<close> and no method \<open>push\<close>. The names are
  those of ECMAScript (with its Annex B, which browsers implement); a page that adds
  properties of its own to \<open>Object.prototype\<close> is outside the model.

  What the source throws on these keys is a \<open>TypeError\<close>.
\<close>

definition objectPrototypeKeys :: "jstring list" where
  "objectPrototypeKeys =
     [ascii ''constructor'', ascii ''hasOwnProperty'', ascii ''isPrototypeOf'',
      ascii ''propertyIsEnumerable'', ascii ''toLocaleString'', ascii ''toString'',
      ascii ''valueOf'', ascii ''__proto__'', ascii ''__defineGetter__'',
      ascii ''__defineSetter__'', ascii ''__lookupGetter__'', ascii ''__lookupSetter__'']"

datatype exception = TypeError

subsection \<open>Results table\<close>

text \<open>
  \<open>contestResults\<close> maps the key \<open>`${contest}_${drawDate}`\<close> to a result. \<open>setResults\<close>
  rebuilds it from a list, a later result replacing an earlier one with the same key; the
  map below holds the results stored. (A result stored under the key \<open>__proto__\<close>
  becomes the prototype of the dictionary, and reading \<open>__proto__\<close> returns it: for the
  keys of this program, which all contain an underscore, it is stored like any other.)
  The time stamp \<open>savedAt\<close> is not read by any function here and is left out.

  \<open>getContestResult\<close> returns \<open>this.contestResults[key]\<close>: the result stored under
  the key, or else the inherited value if the key names one, or else \<open>undefined\<close>.
\<close>

definition resultKey :: "jstring \<Rightarrow> jstring \<Rightarrow> jstring" where
  "resultKey c d = c @ ascii ''_'' @ d"

definition setResults :: "contestResult list \<Rightarrow> (jstring \<rightharpoonup> contestResult)" where
  "setResults results =
     fold (\<lambda>r m. m(resultKey (res_contest r) (res_drawDate r) \<mapsto> r)) results Map.empty"

datatype lookup = Stored contestResult | Inherited | Undefined

definition getContestResult ::
  "(jstring \<rightharpoonup> contestResult) \<Rightarrow> jstring \<Rightarrow> jstring \<Rightarrow> lookup" where
  "getContestResult contestResults c d =
     (let key = resultKey c d
      in case contestResults key of
           Some r \<Rightarrow> Stored r
         | None \<Rightarrow> if key \<in> set objectPrototypeKeys then Inherited else Undefined)"

subsection \<open>matchNumbers and getPrizeTier\<close>

definition matchNumbers :: "int list \<Rightarrow> int list \<Rightarrow> matchResult" where
  "matchNumbers chosen winning =
     fold (\<lambda>num r. if num \<in> set winning
                    then \<lparr>match_count = match_count r + 1,
                          matchedNumbers = matchedNumbers r @ [num]\<rparr>
                    else r)
          chosen \<lparr>match_count = 0, matchedNumbers = []\<rparr>"

definition getPrizeTier :: "nat \<Rightarrow> prizeTier" where
  "getPrizeTier matchCount =
     (if matchCount = 5 then
        \<lparr>tier = ascii ''GRAND PRIZE'', color = ascii ''gold'', priority = 1,
         badge = ascii ''badge-gold''\<rparr>
      else if matchCount = 4 then
        \<lparr>tier = ascii ''2nd PRIZE'', color = ascii ''silver'', priority = 2,
         badge = ascii ''badge-silver''\<rparr>
      else if matchCount = 3 then
        \<lparr>tier = ascii ''3rd PRIZE'', color = ascii ''#CD7F32'', priority = 3,
         badge = ascii ''badge-bronze''\<rparr>
      else if matchCount = 2 then
        \<lparr>tier = ascii ''CONSOLATION'', color = ascii ''green'', priority = 4,
         badge = ascii ''badge-green''\<rparr>
      else
        \<lparr>tier = ascii ''NO PRIZE'', color = ascii ''gray'', priority = 5, badge = []\<rparr>)"

subsection \<open>validateEntry\<close>

text \<open>
  The three blocks of \<open>validateEntry\<close>, in the order of the source. A gate returns
  \<open>Some r\<close> where the source executes \<open>return r\<close>, and \<open>None\<close> where control goes on to
  the next block. The third block looks the result up. When the lookup gives an inherited
  value, \<open>!result\<close> is false and \<open>result.winningNumbers\<close> is \<open>undefined\<close>; then
  \<open>matchNumbers\<close> evaluates \<open>undefined.includes(num)\<close> for the first chosen number,
  which throws, and with no chosen number it returns the count 0 and no matched number.
\<close>

definition validityGate :: "(jstring \<Rightarrow> jstring) \<Rightarrow> entry \<Rightarrow> validation option" where
  "validityGate toUpperCase e =
     (if truthy (validity e) then
        (let v = toUpperCase (trim (the (validity e))) in
         if v = ascii ''INVALID'' then
           Some (Rejected
             (if truthy (invalidReasonCode e)
              then ascii ''Recharge validation failed: '' @ the (invalidReasonCode e)
              else ascii ''Ticket failed recharge validation. Winner check not allowed.'')
             RECHARGE_INVALID v)
         else if v \<noteq> ascii ''VALID'' then
           Some (Rejected (ascii ''Ticket validity unknown. Winner check not allowed.'')
                   VALIDITY_UNKNOWN v)
         else None)
      else None)"

definition statusGate :: "(jstring \<Rightarrow> jstring) \<Rightarrow> entry \<Rightarrow> validation option" where
  "statusGate toUpperCase e =
     (let statusRaw = orElse (status e) (orElse (csvStatus e) []);
          st = toUpperCase (trim statusRaw) in
      if st = ascii ''INVALID'' \<or> st = str_INVALIDO then
        Some (Rejected
          (if truthy (invalidReasonCode e)
           then ascii ''Ticket rejected: '' @ the (invalidReasonCode e)
           else ascii ''Ticket status is INVALID. Winner check is not allowed.'')
          STATUS_INVALID st)
      else if st \<in> set blockedPendingStatuses
              \<or> (st \<noteq> [] \<and> st \<notin> set allowedValidStatuses) then
        Some (Rejected (ascii ''Ticket is not validated. Winner check is not allowed.'')
                STATUS_NOT_VALIDATED st)
      else None)"

definition winnerCheck ::
  "(jstring \<rightharpoonup> contestResult) \<Rightarrow> entry \<Rightarrow> exception + validation" where
  "winnerCheck contestResults e =
     (case getContestResult contestResults (contest e) (drawDate e) of
        Undefined \<Rightarrow> Inr (NoWinningNumbers (ascii ''No winning numbers set for this contest''))
      | Stored result \<Rightarrow>
          (let mr = matchNumbers (chosenNumbers e) (winningNumbers result) in
           Inr (Validated (match_count mr) (matchedNumbers mr) (getPrizeTier (match_count mr))
                  (Some (winningNumbers result))))
      | Inherited \<Rightarrow>
          (if chosenNumbers e = [] then Inr (Validated 0 [] (getPrizeTier 0) None)
           else Inl TypeError))"

definition validateEntry ::
  "(jstring \<Rightarrow> jstring) \<Rightarrow> (jstring \<rightharpoonup> contestResult) \<Rightarrow> entry
   \<Rightarrow> exception + validation" where
  "validateEntry toUpperCase contestResults e =
     (case validityGate toUpperCase e of
        Some r \<Rightarrow> Inr r
      | None \<Rightarrow>
          (case statusGate toUpperCase e of
             Some r \<Rightarrow> Inr r
           | None \<Rightarrow> winnerCheck contestResults e))"

subsection \<open>getWinners\<close>

text \<open>
  A winner is the entry spread into a new object together with its \<open>validation\<close> and the
  \<open>winningLevel\<close> of its group.
\<close>

record winner =
  w_entry :: entry
  w_validation :: validation
  winningLevel :: nat

definition eligible :: "(jstring \<Rightarrow> jstring) \<Rightarrow> entry \<Rightarrow> bool" where
  "eligible toUpperCase e =
     (toUpperCase (trim (orElse (status e) [])) \<in> set allowedValidStatuses)"

definition groupKey :: "entry \<Rightarrow> jstring" where
  "groupKey e = platform e @ ascii ''_'' @ contest e @ ascii ''_'' @ drawDate e"

text \<open>
  \<open>grouped\<close> maps the group key to an array. Every key contains two underscores, so
  none is an array index, and \<open>Object.values\<close> lists the groups in the order in which
  their keys were first inserted: the dictionary is an association list in insertion order.
  \<open>pushGroup\<close> is \<open>if (!grouped[key]) grouped[key] = []; grouped[key].push(x)\<close>. For a
  key that names an inherited property, \<open>grouped[key]\<close> is the inherited value: it is
  truthy, so no array is stored, and calling its \<open>push\<close>, which is \<open>undefined\<close>,
  throws. For any other key, \<open>appendGroup\<close> adds \<open>x\<close> to the array of the key, after
  storing an empty array if the key is new.
\<close>

fun appendGroup :: "jstring \<Rightarrow> 'a \<Rightarrow> (jstring \<times> 'a list) list \<Rightarrow> (jstring \<times> 'a list) list" where
  "appendGroup k x [] = [(k, [x])]"
| "appendGroup k x ((k', xs) # g) =
     (if k = k' then (k', xs @ [x]) # g else (k', xs) # appendGroup k x g)"

definition pushGroup ::
  "jstring \<Rightarrow> 'a \<Rightarrow> (jstring \<times> 'a list) list \<Rightarrow> exception + (jstring \<times> 'a list) list" where
  "pushGroup k x g =
     (if k \<in> set objectPrototypeKeys then Inl TypeError else Inr (appendGroup k x g))"

text \<open>
  The loop \<open>eligible.forEach\<close> of \<open>getWinners\<close>, from the dictionary built so far. An
  exception thrown by \<open>validateEntry\<close> or by the \<open>push\<close> ends the loop and
  \<open>getWinners\<close>. (The source stores the empty array of a new key before it calls
  \<open>validateEntry\<close> and pushes after; when \<open>validateEntry\<close> throws, the dictionary is
  dropped with the call, so storing and pushing are one step here.)
\<close>

fun groupEntries ::
  "(jstring \<Rightarrow> jstring) \<Rightarrow> (jstring \<rightharpoonup> contestResult) \<Rightarrow> entry list
   \<Rightarrow> (jstring \<times> (entry \<times> validation) list) list
   \<Rightarrow> exception + (jstring \<times> (entry \<times> validation) list) list" where
  "groupEntries toUpperCase contestResults [] g = Inr g"
| "groupEntries toUpperCase contestResults (e # es) g =
     (case validateEntry toUpperCase contestResults e of
        Inl err \<Rightarrow> Inl err
      | Inr validation \<Rightarrow>
          (case pushGroup (groupKey e) (e, validation) g of
             Inl err \<Rightarrow> Inl err
           | Inr g' \<Rightarrow> groupEntries toUpperCase contestResults es g'))"

definition grouped ::
  "(jstring \<Rightarrow> jstring) \<Rightarrow> (jstring \<rightharpoonup> contestResult) \<Rightarrow> entry list
   \<Rightarrow> exception + (jstring \<times> (entry \<times> validation) list) list" where
  "grouped toUpperCase contestResults es = groupEntries toUpperCase contestResults es []"

definition getWinningLevel :: "(entry \<times> validation) list \<Rightarrow> nat" where
  "getWinningLevel entries =
     fold (\<lambda>e highest. if validated (snd e) then max highest (matches (snd e)) else highest)
          entries 0"

definition groupWinners :: "(entry \<times> validation) list \<Rightarrow> winner list" where
  "groupWinners g =
     (let level = getWinningLevel g in
      if level = 0 then []
      else map (\<lambda>e. \<lparr>w_entry = fst e, w_validation = snd e, winningLevel = level\<rparr>)
             (filter (\<lambda>e. validated (snd e) \<and> matches (snd e) = level) g))"

text \<open>
  The comparison function handed to \<open>Array.prototype.sort\<close>. The sort is stable, and the
  comparison function is consistent (it orders by contest, then by descending matches), so
  the result is the one sorted stable permutation; \<open>sortBy\<close> computes it by insertion.
\<close>

definition compareWinners :: "winner \<Rightarrow> winner \<Rightarrow> int" where
  "compareWinners a b =
     (if contest (w_entry a) = contest (w_entry b)
      then int (matches (w_validation b)) - int (matches (w_validation a))
      else if contest (w_entry a) > contest (w_entry b) then 1 else - 1)"

fun insertBy :: "('a \<Rightarrow> 'a \<Rightarrow> int) \<Rightarrow> 'a \<Rightarrow> 'a list \<Rightarrow> 'a list" where
  "insertBy cmp x [] = [x]"
| "insertBy cmp x (y # ys) = (if cmp x y \<le> 0 then x # y # ys else y # insertBy cmp x ys)"

definition sortBy :: "('a \<Rightarrow> 'a \<Rightarrow> int) \<Rightarrow> 'a list \<Rightarrow> 'a list" where
  "sortBy cmp xs = foldr (insertBy cmp) xs []"

text \<open>
  \<open>unsortedWinners\<close> is the array \<open>winners\<close> as it is before the sort: the winners of
  the groups, group after group in the order of \<open>Object.values(grouped)\<close>.
\<close>

definition unsortedWinners ::
  "(jstring \<Rightarrow> jstring) \<Rightarrow> (jstring \<rightharpoonup> contestResult) \<Rightarrow> entry list
   \<Rightarrow> exception + winner list" where
  "unsortedWinners toUpperCase contestResults entries =
     (case grouped toUpperCase contestResults (filter (eligible toUpperCase) entries) of
        Inl err \<Rightarrow> Inl err
      | Inr g \<Rightarrow> Inr (concat (map (\<lambda>kg. groupWinners (snd kg)) g)))"

definition getWinners ::
  "(jstring \<Rightarrow> jstring) \<Rightarrow> (jstring \<rightharpoonup> contestResult) \<Rightarrow> entry list
   \<Rightarrow> exception + winner list" where
  "getWinners toUpperCase contestResults entries =
     (case unsortedWinners toUpperCase contestResults entries of
        Inl err \<Rightarrow> Inl err
      | Inr winners \<Rightarrow> Inr (sortBy compareWinners winners))"

section \<open>Time values and the civil calendar\<close>

text \<open>
  A \<open>Date\<close> is its time value: the milliseconds since 1970-01-01T00:00:00Z, an integer.
  The functions of this section are those by which ECMAScript defines the methods of
  \<open>Date\<close> (Day, TimeWithinDay, DayFromYear, YearFromTime, InLeapYear, MonthFromTime,
  DateFromTime, WeekDay, MakeDay, MakeDate). ECMAScript specifies YearFromTime as the
  largest year \<open>y\<close> with \<open>DayFromYear y \<le> Day t\<close>; \<open>YearFromDay\<close> computes it from an
  estimate that is off by at most one, and \<open>YearFromDay_bounds\<close> and \<open>YearFromDay_unique\<close>
  below prove that it is that year.
\<close>

definition msPerDay :: int where
  "msPerDay = 86400000"

definition msPerHour :: int where
  "msPerHour = 3600000"

definition Day :: "int \<Rightarrow> int" where
  "Day t = t div msPerDay"

definition TimeWithinDay :: "int \<Rightarrow> int" where
  "TimeWithinDay t = t mod msPerDay"

definition DayFromYear :: "int \<Rightarrow> int" where
  "DayFromYear y =
     365 * (y - 1970) + (y - 1969) div 4 - (y - 1901) div 100 + (y - 1601) div 400"

definition InLeapYear :: "int \<Rightarrow> int" where
  "InLeapYear y =
     (if y mod 4 \<noteq> 0 then 0 else if y mod 100 \<noteq> 0 then 1 else if y mod 400 \<noteq> 0 then 0 else 1)"

definition YearFromDay :: "int \<Rightarrow> int" where
  "YearFromDay d =
     (let y = 1970 + (400 * d) div 146097 in
      if d < DayFromYear y then y - 1
      else if DayFromYear (y + 1) \<le> d then y + 1
      else y)"

definition YearFromTime :: "int \<Rightarrow> int" where
  "YearFromTime t = YearFromDay (Day t)"

definition DayWithinYear :: "int \<Rightarrow> int" where
  "DayWithinYear t = Day t - DayFromYear (YearFromTime t)"

text \<open>
  The month table of ECMAScript, months numbered from 0; \<open>l\<close> is 1 in a leap year and 0
  otherwise. \<open>monthOf l n\<close> is the month of the day numbered \<open>n\<close> within its year, and
  \<open>monthStart l m\<close> the number within the year of the first day of month \<open>m\<close>.
\<close>

definition monthOf :: "int \<Rightarrow> int \<Rightarrow> int" where
  "monthOf l n =
     (if n < 31 then 0 else if n < 59 + l then 1 else if n < 90 + l then 2
      else if n < 120 + l then 3 else if n < 151 + l then 4 else if n < 181 + l then 5
      else if n < 212 + l then 6 else if n < 243 + l then 7 else if n < 273 + l then 8
      else if n < 304 + l then 9 else if n < 334 + l then 10 else 11)"

definition monthStart :: "int \<Rightarrow> int \<Rightarrow> int" where
  "monthStart l m =
     (if m = 0 then 0 else if m = 1 then 31 else if m = 2 then 59 + l
      else if m = 3 then 90 + l else if m = 4 then 120 + l else if m = 5 then 151 + l
      else if m = 6 then 181 + l else if m = 7 then 212 + l else if m = 8 then 243 + l
      else if m = 9 then 273 + l else if m = 10 then 304 + l else 334 + l)"

definition MonthFromTime :: "int \<Rightarrow> int" where
  "MonthFromTime t = monthOf (InLeapYear (YearFromTime t)) (DayWithinYear t)"

definition DateFromTime :: "int \<Rightarrow> int" where
  "DateFromTime t =
     DayWithinYear t - monthStart (InLeapYear (YearFromTime t)) (MonthFromTime t) + 1"

definition WeekDay :: "int \<Rightarrow> int" where
  "WeekDay t = (Day t + 4) mod 7"

definition HourFromTime :: "int \<Rightarrow> int" where
  "HourFromTime t = (t div msPerHour) mod 24"

definition MinFromTime :: "int \<Rightarrow> int" where
  "MinFromTime t = (t div 60000) mod 60"

definition SecFromTime :: "int \<Rightarrow> int" where
  "SecFromTime t = (t div 1000) mod 60"

definition msFromTime :: "int \<Rightarrow> int" where
  "msFromTime t = t mod 1000"

definition MakeTime :: "int \<Rightarrow> int \<Rightarrow> int \<Rightarrow> int \<Rightarrow> int" where
  "MakeTime h m s ms = h * msPerHour + m * 60000 + s * 1000 + ms"

definition MakeDay :: "int \<Rightarrow> int \<Rightarrow> int \<Rightarrow> int" where
  "MakeDay y m dt =
     DayFromYear (y + m div 12) + monthStart (InLeapYear (y + m div 12)) (m mod 12) + dt - 1"

definition MakeDate :: "int \<Rightarrow> int \<Rightarrow> int" where
  "MakeDate d time = d * msPerDay + time"

definition getUTCDate :: "int \<Rightarrow> int" where
  "getUTCDate t = DateFromTime t"

definition setUTCDate :: "int \<Rightarrow> int \<Rightarrow> int" where
  "setUTCDate t dt = MakeDate (MakeDay (YearFromTime t) (MonthFromTime t) dt) (TimeWithinDay t)"

text \<open>
  \<open>getDate\<close>, \<open>setDate\<close>, \<open>getSeconds\<close> and \<open>setSeconds\<close> work on the local time of
  the host, the machine the program runs on. ECMAScript defines them from the offset
  \<open>LocalTZA(t, isUTC)\<close> of the host's time zone, in milliseconds: with \<open>isUTC\<close> true it is
  the offset in force at the time value \<open>t\<close>, and with \<open>isUTC\<close> false the offset by which
  the local time \<open>t\<close> is read back (the offset before the change, for a local time that a
  change of offset skips or repeats). The zone of the host is not part of the repository:
  the functions that call these methods take \<open>LocalTZA\<close> as the parameter \<open>host\<close>.
\<close>

definition LocalTime :: "(int \<Rightarrow> bool \<Rightarrow> int) \<Rightarrow> int \<Rightarrow> int" where
  "LocalTime host t = t + host t True"

definition UTC :: "(int \<Rightarrow> bool \<Rightarrow> int) \<Rightarrow> int \<Rightarrow> int" where
  "UTC host t = t - host t False"

definition getDate :: "(int \<Rightarrow> bool \<Rightarrow> int) \<Rightarrow> int \<Rightarrow> int" where
  "getDate host t = DateFromTime (LocalTime host t)"

definition setDate :: "(int \<Rightarrow> bool \<Rightarrow> int) \<Rightarrow> int \<Rightarrow> int \<Rightarrow> int" where
  "setDate host t dt =
     (let lt = LocalTime host t
      in UTC host (MakeDate (MakeDay (YearFromTime lt) (MonthFromTime lt) dt) (TimeWithinDay lt)))"

definition getSeconds :: "(int \<Rightarrow> bool \<Rightarrow> int) \<Rightarrow> int \<Rightarrow> int" where
  "getSeconds host t = SecFromTime (LocalTime host t)"

definition setSeconds :: "(int \<Rightarrow> bool \<Rightarrow> int) \<Rightarrow> int \<Rightarrow> int \<Rightarrow> int" where
  "setSeconds host t sec =
     (let lt = LocalTime host t
      in UTC host (MakeDate (Day lt)
                     (MakeTime (HourFromTime lt) (MinFromTime lt) sec (msFromTime lt))))"

text \<open>
  A date string \<open>YYYY-MM-DD\<close> is modelled by its three numbers. The source builds such
  strings from the fields of a date (\<open>getBrazilDateString\<close>, \<open>toISOString().split('T')[0]\<close>)
  and reads them back with \<open>new Date(`${s}T12:00:00-03:00`)\<close> and the like, which is \<open>parseISO\<close>: the
  time value of the civil time \<open>timeOfDay\<close> on that day in the zone \<open>utcOffset\<close> ahead of UTC.
  This is what the strings do for years of four digits (1000 to 9999), the range of dates
  for which the theorems below are stated.
\<close>

record dateString =
  ds_year :: int
  ds_month :: int
  ds_day :: int

definition parseISO :: "dateString \<Rightarrow> int \<Rightarrow> int \<Rightarrow> int" where
  "parseISO s timeOfDay utcOffset =
     MakeDate (MakeDay (ds_year s) (ds_month s - 1) (ds_day s)) timeOfDay - utcOffset"

definition toISODate :: "int \<Rightarrow> dateString" where
  "toISODate t =
     \<lparr>ds_year = YearFromTime t, ds_month = MonthFromTime t + 1, ds_day = DateFromTime t\<rparr>"

definition fourDigitYear :: "int \<Rightarrow> bool" where
  "fourDigitYear d = (DayFromYear 1000 \<le> d \<and> d < DayFromYear 10000)"

section \<open>The draw calendar (src/unnamed/part_000)\<close>

text \<open>
  \<open>Intl.DateTimeFormat\<close> with \<open>timeZone: 'America/Sao_Paulo'\<close> formats the fields of the
  civil time of that zone, which is the time value plus the offset the host's time-zone
  data gives the zone at that instant. The data is not part of the repository: the functions
  that format in the zone take it as the parameter \<open>zone\<close>, the offset in milliseconds as
  a function of the time value. The functions that call \<open>setDate\<close> or \<open>setSeconds\<close>
  take the time zone of the host as the parameter \<open>host\<close>.
\<close>

record components =
  year :: int
  month :: int
  day :: int
  hour :: int
  minute :: int
  second :: int

definition getBrazilDateComponents :: "int \<Rightarrow> components" where
  "getBrazilDateComponents date =
     (let utcTime = date;
          brazilTime = utcTime - 3 * 60 * 60 * 1000
      in \<lparr>year = YearFromTime brazilTime, month = MonthFromTime brazilTime + 1,
          day = DateFromTime brazilTime, hour = HourFromTime brazilTime,
          minute = MinFromTime brazilTime, second = SecFromTime brazilTime\<rparr>)"

definition getBrazilDateString :: "int \<Rightarrow> dateString" where
  "getBrazilDateString date =
     (let c = getBrazilDateComponents date
      in \<lparr>ds_year = year c, ds_month = month c, ds_day = day c\<rparr>)"

text \<open>
  The source declares \<open>getBrazilDayOfWeek\<close> twice. A later function declaration replaces
  an earlier one of the same name, so every call runs the second, which formats in the
  zone. The first, which computes from \<open>getBrazilDateComponents\<close>, is kept here under the
  name \<open>getBrazilDayOfWeek_first\<close>; no function calls it.
\<close>

definition getBrazilDayOfWeek_first :: "int \<Rightarrow> int" where
  "getBrazilDayOfWeek_first date =
     (let c = getBrazilDateComponents date
      in WeekDay (MakeDate (MakeDay (year c) (month c - 1) (day c)) 0))"

definition getBrazilDayOfWeek :: "(int \<Rightarrow> int) \<Rightarrow> int \<Rightarrow> int" where
  "getBrazilDayOfWeek zone date = WeekDay (date + zone date)"

definition getBrazilMonth :: "(int \<Rightarrow> int) \<Rightarrow> int \<Rightarrow> int" where
  "getBrazilMonth zone date = MonthFromTime (date + zone date) + 1 - 1"

definition getBrazilDayOfMonth :: "(int \<Rightarrow> int) \<Rightarrow> int \<Rightarrow> int" where
  "getBrazilDayOfMonth zone date = DateFromTime (date + zone date)"

definition isNoDrawDay :: "(int \<Rightarrow> int) \<Rightarrow> int \<Rightarrow> bool" where
  "isNoDrawDay zone date =
     (let m = getBrazilMonth zone date;
          d = getBrazilDayOfMonth zone date;
          isChristmas = (m = 11 \<and> d = 25);
          isNewYear = (m = 0 \<and> d = 1)
      in isChristmas \<or> isNewYear)"

definition isEarlyDrawDay :: "(int \<Rightarrow> int) \<Rightarrow> int \<Rightarrow> bool" where
  "isEarlyDrawDay zone date =
     (let m = getBrazilMonth zone date;
          d = getBrazilDayOfMonth zone date
      in m = 11 \<and> (d = 24 \<or> d = 31))"

definition getDrawTimeHour :: "(int \<Rightarrow> int) \<Rightarrow> int \<Rightarrow> int" where
  "getDrawTimeHour zone date = (if isEarlyDrawDay zone date then 17 else 20)"

definition isValidDrawDay :: "(int \<Rightarrow> int) \<Rightarrow> int \<Rightarrow> bool" where
  "isValidDrawDay zone date =
     (let isSunday = (getBrazilDayOfWeek zone date = 0)
      in \<not> isSunday \<and> \<not> isNoDrawDay zone date)"

subsection \<open>Schedules\<close>

datatype dateInput = DateObject int | DateText dateString

record schedule =
  sched_drawDate :: int
  drawHour :: int
  cutoff :: int
  regStart :: int

record scheduleNow = schedule +
  now :: int

definition withNow :: "schedule \<Rightarrow> int \<Rightarrow> scheduleNow" where
  "withNow s n =
     \<lparr>sched_drawDate = sched_drawDate s, drawHour = drawHour s, cutoff = cutoff s,
      regStart = regStart s, now = n\<rparr>"

definition buildScheduleForDate ::
  "(int \<Rightarrow> int) \<Rightarrow> (int \<Rightarrow> bool \<Rightarrow> int) \<Rightarrow> dateInput \<Rightarrow> schedule" where
  "buildScheduleForDate zone host dateInput =
     (let dateStr = (case dateInput of DateText s \<Rightarrow> s | DateObject t \<Rightarrow> getBrazilDateString t);
          drawDate = parseISO dateStr 0 (- 3 * msPerHour);
          drawHour = getDrawTimeHour zone drawDate;
          cutoff0 = parseISO dateStr (drawHour * msPerHour) (- 3 * msPerHour);
          cutoff = setSeconds host cutoff0 (getSeconds host cutoff0 - 1);
          regStartDate = setDate host drawDate (getDate host drawDate - 1);
          regStartStr = getBrazilDateString regStartDate;
          regStart = parseISO regStartStr (20 * msPerHour + 1000) (- 3 * msPerHour)
      in \<lparr>sched_drawDate = drawDate, drawHour = drawHour, cutoff = cutoff,
          regStart = regStart\<rparr>)"

datatype error = NoValidDrawDate

text \<open>
  The second loop of \<open>getCurrentDrawSchedule\<close>: \<open>n\<close> counts the iterations that remain of
  the fourteen, and running out of them is the \<open>throw\<close> after the loop.
\<close>

fun scanForward ::
  "(int \<Rightarrow> int) \<Rightarrow> (int \<Rightarrow> bool \<Rightarrow> int) \<Rightarrow> int \<Rightarrow> nat \<Rightarrow> int \<Rightarrow> error + scheduleNow" where
  "scanForward zone host spNow 0 probe = Inl NoValidDrawDate"
| "scanForward zone host spNow (Suc n) probe =
     (let probe' = setDate host probe (getDate host probe + 1);
          probeStr = getBrazilDateString probe';
          probeDate = parseISO probeStr 0 (- 3 * msPerHour)
      in if isValidDrawDay zone probeDate
         then Inr (withNow (buildScheduleForDate zone host (DateText probeStr)) spNow)
         else scanForward zone host spNow n probe')"

text \<open>
  \<open>spNow\<close> is the clock reading \<open>getBrazilTime()\<close>, the one input of the function.
\<close>

definition getCurrentDrawSchedule ::
  "(int \<Rightarrow> int) \<Rightarrow> (int \<Rightarrow> bool \<Rightarrow> int) \<Rightarrow> int \<Rightarrow> error + scheduleNow" where
  "getCurrentDrawSchedule zone host spNow =
     (let todayStr = getBrazilDateString spNow;
          today = parseISO todayStr 0 (- 3 * msPerHour);
          todayValid = isValidDrawDay zone today
      in if todayValid then
           (let sched = buildScheduleForDate zone host (DateText todayStr)
            in if spNow \<le> cutoff sched then Inr (withNow sched spNow)
               else scanForward zone host spNow 14 today)
         else scanForward zone host spNow 14 today)"

subsection \<open>calculateConcurso\<close>

definition CONCURSO_REFERENCE_number :: int where
  "CONCURSO_REFERENCE_number = 6903"

definition CONCURSO_REFERENCE_date :: int where
  "CONCURSO_REFERENCE_date =
     parseISO \<lparr>ds_year = 2025, ds_month = 12, ds_day = 15\<rparr> 0 (- 3 * msPerHour)"

text \<open>
  The loop of \<open>calculateConcurso\<close> moves \<open>cursor\<close> by \<open>setUTCDate(getUTCDate() + step)\<close>.
  That this is a move by exactly one day, which makes the loop end, is proved first.
\<close>

lemma monthOf_range: "0 \<le> monthOf l n \<and> monthOf l n \<le> 11"
  unfolding monthOf_def by simp

lemma MakeDay_fields:
  "MakeDay (YearFromTime t) (MonthFromTime t) (DateFromTime t + k) = Day t + k"
proof -
  have "0 \<le> MonthFromTime t" "MonthFromTime t \<le> 11"
    unfolding MonthFromTime_def using monthOf_range by simp_all
  then have "MonthFromTime t div 12 = 0" "MonthFromTime t mod 12 = MonthFromTime t"
    by simp_all
  then show ?thesis
    unfolding MakeDay_def DateFromTime_def DayWithinYear_def by simp
qed

lemma setUTCDate_getUTCDate: "setUTCDate t (getUTCDate t + k) = t + k * msPerDay"
proof -
  have "t = Day t * msPerDay + TimeWithinDay t"
    unfolding Day_def TimeWithinDay_def by simp
  then show ?thesis
    unfolding setUTCDate_def getUTCDate_def MakeDate_def MakeDay_fields
    by (simp add: algebra_simps)
qed

function concursoLoop :: "(int \<Rightarrow> int) \<Rightarrow> int \<Rightarrow> int \<Rightarrow> int \<Rightarrow> int \<Rightarrow> int" where
  "concursoLoop zone step targetDate cursor daysDiff =
     (if (step = 1 \<and> cursor < targetDate) \<or> (step = - 1 \<and> cursor > targetDate) then
        (let cursor' = setUTCDate cursor (getUTCDate cursor + step);
             cursorStr = toISODate cursor';
             cursorBrazil = parseISO cursorStr (12 * msPerHour) (- 3 * msPerHour)
         in concursoLoop zone step targetDate cursor'
              (if isValidDrawDay zone cursorBrazil then daysDiff + 1 else daysDiff))
      else daysDiff)"
  by pat_completeness auto
termination
  by (relation "measure (\<lambda>(zone, step, targetDate, cursor, daysDiff).
                  nat (if step = 1 then targetDate - cursor else cursor - targetDate))")
     (auto simp: setUTCDate_getUTCDate msPerDay_def)

definition calculateConcurso :: "(int \<Rightarrow> int) \<Rightarrow> dateInput \<Rightarrow> int" where
  "calculateConcurso zone dateInput =
     (let refDateStr = getBrazilDateString CONCURSO_REFERENCE_date;
          targetDateStr = (case dateInput of DateText s \<Rightarrow> s
                           | DateObject t \<Rightarrow> getBrazilDateString t);
          refDate = parseISO refDateStr (12 * msPerHour) 0;
          targetDate = parseISO targetDateStr (12 * msPerHour) 0;
          step = (if targetDate \<ge> refDate then 1 else - 1);
          daysDiff = concursoLoop zone step targetDate refDate 0
      in CONCURSO_REFERENCE_number + daysDiff * step)"

section \<open>Notions used to state the properties\<close>

subsection \<open>The zone and the civil days\<close>

text \<open>
  Since 1914 the zone America/Sao_Paulo has been three hours behind UTC, or two hours
  behind while daylight saving time was in force (last from 2018-11-04T03:00Z to
  2019-02-17T02:00Z); \<open>zoneBRT\<close> says that the time-zone data gives offsets in that range.
  \<open>fixedBRT\<close> is the zone as it has been since 2019, and \<open>saoPauloOffset\<close> is the zone
  with its last period of daylight saving time.
\<close>

definition zoneBRT :: "(int \<Rightarrow> int) \<Rightarrow> bool" where
  "zoneBRT zone = (\<forall>t. - 3 * msPerHour \<le> zone t \<and> zone t \<le> - 2 * msPerHour)"

definition fixedBRT :: "int \<Rightarrow> int" where
  "fixedBRT t = - 3 * msPerHour"

definition saoPauloOffset :: "int \<Rightarrow> int" where
  "saoPauloOffset t =
     (if 1541300400000 \<le> t \<and> t < 1550368800000 then - 2 * msPerHour else - 3 * msPerHour)"

text \<open>
  Civil days are numbered from 1970-01-01, which is day 0. \<open>drawDay d\<close> says that day
  \<open>d\<close> is a valid draw day in the words of the specification: it is not a Sunday, not
  the 25th of December and not the 1st of January.
\<close>

definition noDrawDay :: "int \<Rightarrow> bool" where
  "noDrawDay d =
     (let t = MakeDate d 0
      in (MonthFromTime t = 11 \<and> DateFromTime t = 25) \<or> (MonthFromTime t = 0 \<and> DateFromTime t = 1))"

definition drawDay :: "int \<Rightarrow> bool" where
  "drawDay d =
     (let t = MakeDate d 0
      in WeekDay t \<noteq> 0
         \<and> \<not> (MonthFromTime t = 11 \<and> DateFromTime t = 25)
         \<and> \<not> (MonthFromTime t = 0 \<and> DateFromTime t = 1))"

text \<open>
  The civil day of an argument of \<open>calculateConcurso\<close> and \<open>buildScheduleForDate\<close>: the
  day of a \<open>Date\<close> in the calendar three hours behind UTC, and the day a date string
  names. \<open>validDateInput\<close> delimits the arguments for which the model of date strings is
  that of the host: the year has four digits, and a string is the one the host writes for
  its day.
\<close>

definition civilDayOf :: "dateInput \<Rightarrow> int" where
  "civilDayOf x =
     (case x of
        DateObject t \<Rightarrow> Day (t - 3 * msPerHour)
      | DateText s \<Rightarrow> MakeDay (ds_year s) (ds_month s - 1) (ds_day s))"

definition dateStringOfDay :: "int \<Rightarrow> dateString" where
  "dateStringOfDay d = toISODate (MakeDate d 0)"

definition validDateInput :: "dateInput \<Rightarrow> bool" where
  "validDateInput x =
     (fourDigitYear (civilDayOf x)
      \<and> (case x of DateObject t \<Rightarrow> True | DateText s \<Rightarrow> dateStringOfDay (civilDayOf x) = s))"

definition scheduleOfDay :: "(int \<Rightarrow> int) \<Rightarrow> (int \<Rightarrow> bool \<Rightarrow> int) \<Rightarrow> int \<Rightarrow> schedule" where
  "scheduleOfDay zone host d = buildScheduleForDate zone host (DateText (dateStringOfDay d))"

text \<open>
  A host whose local time keeps one offset from UTC, and \<open>fixedHost c\<close>, the host at the
  offset \<open>c\<close>. \<open>earlyDrawDay d\<close> says that day \<open>d\<close> is the 24th or the 31st of December,
  when the draw is at 17:00. \<open>planOfDay d\<close> is the schedule of day \<open>d\<close> in the words of
  the specification, all times three hours behind UTC: the draw day from 00:00, the cutoff
  one second before the draw hour, and the start of registration at 20:00:01 the day before.
\<close>

definition constantHost :: "(int \<Rightarrow> bool \<Rightarrow> int) \<Rightarrow> bool" where
  "constantHost host = (\<forall>t isUTC. host t isUTC = host 0 True)"

definition fixedHost :: "int \<Rightarrow> int \<Rightarrow> bool \<Rightarrow> int" where
  "fixedHost c t isUTC = c"

definition earlyDrawDay :: "int \<Rightarrow> bool" where
  "earlyDrawDay d =
     (let t = MakeDate d 0
      in MonthFromTime t = 11 \<and> (DateFromTime t = 24 \<or> DateFromTime t = 31))"

definition planOfDay :: "int \<Rightarrow> schedule" where
  "planOfDay d =
     (let h = (if earlyDrawDay d then 17 else 20)
      in \<lparr>sched_drawDate = d * msPerDay + 3 * msPerHour, drawHour = h,
          cutoff = d * msPerDay + 3 * msPerHour + h * msPerHour - 1000,
          regStart = (d - 1) * msPerDay + 3 * msPerHour + 20 * msPerHour + 1000\<rparr>)"

subsection \<open>Contest numbers\<close>

definition referenceDay :: int where
  "referenceDay = Day (CONCURSO_REFERENCE_date - 3 * msPerHour)"

text \<open>
  The contest number as a count of draw days: those after the reference day up to and
  including the target day, or those from the target day up to but excluding the
  reference day.
\<close>

definition concursoByCount :: "int \<Rightarrow> int" where
  "concursoByCount d =
     (if referenceDay \<le> d
      then CONCURSO_REFERENCE_number + int (length (filter drawDay [referenceDay + 1 .. d]))
      else CONCURSO_REFERENCE_number - int (length (filter drawDay [d .. referenceDay - 1])))"

text \<open>
  Day \<open>d\<close> is the \<open>n\<close>-th draw day after the reference day; \<open>nthDrawDay n\<close> finds that
  day by going from one draw day to the next.
\<close>

definition nthDrawDayAfterReference :: "int \<Rightarrow> nat \<Rightarrow> bool" where
  "nthDrawDayAfterReference d n =
     (referenceDay < d \<and> drawDay d \<and> length (filter drawDay [referenceDay + 1 .. d]) = n)"

definition nextDrawDay :: "int \<Rightarrow> int" where
  "nextDrawDay d = (case find drawDay [d + 1 .. d + 14] of Some x \<Rightarrow> x | None \<Rightarrow> d + 14)"

fun nthDrawDay :: "nat \<Rightarrow> int" where
  "nthDrawDay 0 = referenceDay"
| "nthDrawDay (Suc n) = nextDrawDay (nthDrawDay n)"

subsection \<open>Groups of entries\<close>

text \<open>
  Two entries are in the same group when they agree on platform, contest and draw date.
  The source joins the three with underscores to form the key of the group, so the key
  tells the groups apart when platform and contest hold no underscore (code unit 95).
  \<open>plainKeys\<close> says that neither the group key nor the result key of an entry names an
  inherited property of objects.

  \<open>validatedMatches\<close> is the match count of an entry that \<open>validateEntry\<close> returns
  validated, and \<open>None\<close> for any other entry. \<open>groupTop\<close> says that an entry passed
  the status filter of \<open>getWinners\<close>, is validated with at least one match, and that no
  entry of its group that passed the status filter and is validated has more matches.
\<close>

definition sameGroup :: "entry \<Rightarrow> entry \<Rightarrow> bool" where
  "sameGroup a b = (platform a = platform b \<and> contest a = contest b \<and> drawDate a = drawDate b)"

definition separatorFree :: "entry \<Rightarrow> bool" where
  "separatorFree e = (95 \<notin> set (platform e) \<and> 95 \<notin> set (contest e))"

definition plainKeys :: "entry \<Rightarrow> bool" where
  "plainKeys e =
     (groupKey e \<notin> set objectPrototypeKeys
      \<and> resultKey (contest e) (drawDate e) \<notin> set objectPrototypeKeys)"

definition validatedMatches ::
  "(jstring \<Rightarrow> jstring) \<Rightarrow> (jstring \<rightharpoonup> contestResult) \<Rightarrow> entry \<Rightarrow> nat option" where
  "validatedMatches toUpperCase contestResults e =
     (case validateEntry toUpperCase contestResults e of
        Inl err \<Rightarrow> None
      | Inr v \<Rightarrow> if validated v then Some (matches v) else None)"

definition groupTop ::
  "(jstring \<Rightarrow> jstring) \<Rightarrow> (jstring \<rightharpoonup> contestResult) \<Rightarrow> entry list \<Rightarrow> entry \<Rightarrow> bool" where
  "groupTop toUpperCase contestResults es e =
     (eligible toUpperCase e
      \<and> (case validatedMatches toUpperCase contestResults e of
            None \<Rightarrow> False
          | Some m \<Rightarrow>
              1 \<le> m
              \<and> (\<forall>x \<in> set es.
                    eligible toUpperCase x \<and> sameGroup x e
                    \<longrightarrow> (case validatedMatches toUpperCase contestResults x of
                           None \<Rightarrow> True
                         | Some k \<Rightarrow> k \<le> m))))"

text \<open>
  The order of the list \<open>getWinners\<close> returns: by contest ascending, and within one
  contest by matches descending. \<open>contestAndMatches\<close> gives the two values the
  comparison function reads.
\<close>

definition winnerOrder :: "winner \<Rightarrow> winner \<Rightarrow> bool" where
  "winnerOrder a b =
     (contest (w_entry a) < contest (w_entry b)
      \<or> (contest (w_entry a) = contest (w_entry b)
          \<and> matches (w_validation b) \<le> matches (w_validation a)))"

definition contestAndMatches :: "winner \<Rightarrow> jstring \<times> nat" where
  "contestAndMatches w = (contest (w_entry w), matches (w_validation w))"

section \<open>Sample data\<close>

text \<open>
  Two published results and a few tickets, on which the properties are evaluated.
  \<open>sampleEntry\<close> has three of the five winning numbers of contest 6903.
\<close>

definition sampleResults :: "jstring \<rightharpoonup> contestResult" where
  "sampleResults =
     setResults
       [\<lparr>res_contest = ascii ''6903'', res_drawDate = ascii ''15/12/2025'',
         winningNumbers = [7, 12, 25, 33, 48]\<rparr>,
        \<lparr>res_contest = ascii ''6904'', res_drawDate = ascii ''16/12/2025'',
         winningNumbers = [1, 2, 3, 4, 5]\<rparr>]"

definition sampleEntry :: entry where
  "sampleEntry =
     \<lparr>platform = ascii ''POPN1'', gameId = ascii ''1234567890'', whatsapp = ascii ''5511999990000'',
      chosenNumbers = [7, 12, 25, 60, 61], drawDate = ascii ''15/12/2025'',
      contest = ascii ''6903'', status = Some (ascii ''VALID''), csvStatus = None,
      validity = None, invalidReasonCode = None\<rparr>"

definition entryFour :: entry where
  "entryFour = sampleEntry\<lparr>gameId := ascii ''2222222222'', chosenNumbers := [7, 12, 25, 33, 61]\<rparr>"

definition entryLuz :: entry where
  "entryLuz = sampleEntry\<lparr>platform := ascii ''POPLUZ'', gameId := ascii ''3333333333''\<rparr>"

definition entryNone :: entry where
  "entryNone = sampleEntry\<lparr>chosenNumbers := [60, 61, 62, 63, 64]\<rparr>"

definition entryNext :: entry where
  "entryNext = sampleEntry\<lparr>contest := ascii ''6904'', drawDate := ascii ''16/12/2025'',
                 chosenNumbers := [1, 2, 3, 4, 5]\<rparr>"

definition entrySevens :: entry where
  "entrySevens = sampleEntry\<lparr>chosenNumbers := [7, 7, 7, 7, 7]\<rparr>"

definition entryPending :: entry where
  "entryPending = sampleEntry\<lparr>status := Some (ascii '' pending '')\<rparr>"

definition entryNoStatus :: entry where
  "entryNoStatus = sampleEntry\<lparr>status := None\<rparr>"

definition entryRechargedPending :: entry where
  "entryRechargedPending =
     sampleEntry\<lparr>validity := Some (ascii ''VALID''), status := Some (ascii ''PENDING'')\<rparr>"

definition entryRechargeFailed :: entry where
  "entryRechargeFailed =
     sampleEntry\<lparr>validity := Some (ascii '' invalid''),
                  invalidReasonCode := Some (ascii ''NO_RECHARGE'')\<rparr>"

definition entryEmptyValidity :: entry where
  "entryEmptyValidity = sampleEntry\<lparr>validity := Some []\<rparr>"

text \<open>
  A ticket with four matches in the group of \<open>sampleEntry\<close> whose status cell is empty;
  a ticket of an unnamed platform and contest whose draw date reads \<open>proto__\<close>, so that
  its group key is \<open>__proto__\<close>; and a ticket of an unnamed contest whose draw date reads
  \<open>_proto__\<close>, so that its result key is \<open>__proto__\<close>.
\<close>

definition entryFourNoStatus :: entry where
  "entryFourNoStatus = entryFour\<lparr>status := None\<rparr>"

definition entryProto :: entry where
  "entryProto = sampleEntry\<lparr>platform := [], contest := [], drawDate := ascii ''proto__''\<rparr>"

definition entryProtoResult :: entry where
  "entryProtoResult = sampleEntry\<lparr>contest := [], drawDate := ascii ''_proto__''\<rparr>"

text \<open>
  Two tickets whose platform and contest differ but whose group keys are the same string
  \<open>POP_N1_6903_15/12/2025\<close>.
\<close>

definition clashResults :: "jstring \<rightharpoonup> contestResult" where
  "clashResults =
     setResults
       [\<lparr>res_contest = ascii ''6903'', res_drawDate = ascii ''15/12/2025'',
         winningNumbers = [7, 12, 25, 33, 48]\<rparr>,
        \<lparr>res_contest = ascii ''N1_6903'', res_drawDate = ascii ''15/12/2025'',
         winningNumbers = [1, 2, 3, 4, 5]\<rparr>]"

definition clashEntryA :: entry where
  "clashEntryA = sampleEntry\<lparr>platform := ascii ''POP_N1'', chosenNumbers := [7, 12, 25, 33, 61]\<rparr>"

definition clashEntryB :: entry where
  "clashEntryB = sampleEntry\<lparr>platform := ascii ''POP'', contest := ascii ''N1_6903'',
                   chosenNumbers := [1, 2, 3, 60, 61]\<rparr>"

definition december16 :: dateInput where
  "december16 = DateText \<lparr>ds_year = 2025, ds_month = 12, ds_day = 16\<rparr>"

definition december17 :: dateInput where
  "december17 = DateText \<lparr>ds_year = 2025, ds_month = 12, ds_day = 17\<rparr>"

definition december22 :: dateInput where
  "december22 = DateText \<lparr>ds_year = 2025, ds_month = 12, ds_day = 22\<rparr>"

text \<open>
  Sunday 2025-12-14 at noon, and 2018-12-24 at 23:30, both three hours behind UTC. At the
  second instant daylight saving time was in force in America/Sao_Paulo, where it was
  already 00:30 on the 25th.
\<close>

definition sundayNoon :: int where
  "sundayNoon = 1765724400000"

text \<open>
  The zone Asia/Jerusalem around the start of its daylight saving time in 2026: on Friday
  2026-03-27 at 02:00 (00:00 UTC, the time value 1774569600000) the clocks go to 03:00, from
  two to three hours ahead of UTC. \<open>thursdayEvening\<close> is 2026-03-26 at 20:00:00 three
  hours behind UTC, one second after the cutoff of that Thursday, which is day 20538.
\<close>

definition jerusalemSpring2026 :: "int \<Rightarrow> bool \<Rightarrow> int" where
  "jerusalemSpring2026 t isUTC =
     (if isUTC then (if t < 1774569600000 then 2 * msPerHour else 3 * msPerHour)
      else (if t < 1774569600000 + 3 * msPerHour then 2 * msPerHour else 3 * msPerHour))"

definition thursdayEvening :: int where
  "thursdayEvening = 1774566000000"

definition christmasEve2018 :: int where
  "christmasEve2018 = 1545705000000"

section \<open>The civil calendar\<close>

subsection \<open>Days and fields\<close>

lemma Day_offset: "0 \<le> r \<Longrightarrow> r < msPerDay \<Longrightarrow> Day (d * msPerDay + r) = d"
  unfolding Day_def by (rule int_div_pos_eq [of _ _ _ r]) (simp_all add: msPerDay_def)

lemma Day_MakeDate0: "Day (MakeDate d 0) = d"
  unfolding MakeDate_def using Day_offset [of 0 d] by (simp add: msPerDay_def)

lemma fields_by_Day:
  assumes "Day t = Day u"
  shows "WeekDay t = WeekDay u" "MonthFromTime t = MonthFromTime u"
    "DateFromTime t = DateFromTime u" "YearFromTime t = YearFromTime u"
  using assms
  unfolding WeekDay_def MonthFromTime_def DateFromTime_def YearFromTime_def DayWithinYear_def
  by simp_all

lemma parseISO_toISODate: "parseISO (toISODate t) tod off = Day t * msPerDay + tod - off"
  unfolding parseISO_def toISODate_def MakeDate_def
  using MakeDay_fields [of t 0] by simp

lemma getBrazilDateString_toISODate: "getBrazilDateString t = toISODate (t - 3 * msPerHour)"
  unfolding getBrazilDateString_def getBrazilDateComponents_def toISODate_def Let_def
  by (simp add: msPerHour_def)

lemma toISODate_by_Day: "toISODate t = dateStringOfDay (Day t)"
proof -
  have "Day t = Day (MakeDate (Day t) 0)" by (simp add: Day_MakeDate0)
  from fields_by_Day [OF this] show ?thesis
    unfolding toISODate_def dateStringOfDay_def by simp
qed

lemma getBrazilDateString_by_Day:
  "getBrazilDateString t = dateStringOfDay (Day (t - 3 * msPerHour))"
  unfolding getBrazilDateString_toISODate by (rule toISODate_by_Day)

lemma parseISO_dateStringOfDay: "parseISO (dateStringOfDay d) tod off = d * msPerDay + tod - off"
  unfolding dateStringOfDay_def parseISO_toISODate Day_MakeDate0 by simp

lemma Day_midnight: "Day (d * msPerDay + 3 * msPerHour - 3 * msPerHour) = d"
  using Day_offset [of 0 d] by (simp add: msPerDay_def)

subsection \<open>The year of a day\<close>

lemma div_bounds: "0 < c \<Longrightarrow> c * (x div c) \<le> x \<and> x < c * (x div c) + (c::int)"
proof -
  assume c: "0 < c"
  have "x = c * (x div c) + x mod c" by simp
  moreover have "0 \<le> x mod c" "x mod c < c" using c by simp_all
  ultimately show ?thesis by linarith
qed

lemma div_step:
  assumes c: "0 < (c::int)"
  shows "(x + 1) div c = (if (x + 1) mod c = 0 then x div c + 1 else x div c)"
proof -
  define q where "q = x div c"
  define r where "r = x mod c"
  have e1: "x = c * q + r" unfolding q_def r_def by simp
  have b: "0 \<le> r" "r < c" unfolding r_def using c by simp_all
  show ?thesis
  proof (cases "r = c - 1")
    case True
    then have e: "x + 1 = c * (q + 1) + 0" using e1 by (simp add: algebra_simps)
    have "(x + 1) div c = q + 1" by (rule int_div_pos_eq [OF e]) (use c in simp_all)
    moreover have "(x + 1) mod c = 0" by (rule int_mod_pos_eq [OF e]) (use c in simp_all)
    ultimately show ?thesis by (simp add: q_def)
  next
    case False
    then have lt: "r + 1 < c" using b by linarith
    have e: "x + 1 = c * q + (r + 1)" using e1 by linarith
    have "(x + 1) div c = q" by (rule int_div_pos_eq [OF e]) (use b lt in simp_all)
    moreover have "(x + 1) mod c = r + 1" by (rule int_mod_pos_eq [OF e]) (use b lt in simp_all)
    ultimately show ?thesis using b by (simp add: q_def)
  qed
qed

lemma mod_shift: "c dvd k \<Longrightarrow> ((y - k) mod c = 0) = ((y::int) mod c = 0)"
  by (simp add: mod_eq_0_iff_dvd dvd_diff_left_iff)

lemma mod400_100: "(y::int) mod 400 = 0 \<Longrightarrow> y mod 100 = 0"
proof -
  assume "y mod 400 = 0"
  then have "400 dvd y" by (simp add: mod_eq_0_iff_dvd)
  moreover have "(100::int) dvd 400" by simp
  ultimately have "100 dvd y" by (rule dvd_trans [rotated])
  then show ?thesis by (simp add: mod_eq_0_iff_dvd)
qed

lemma mod100_4: "(y::int) mod 100 = 0 \<Longrightarrow> y mod 4 = 0"
proof -
  assume "y mod 100 = 0"
  then have "100 dvd y" by (simp add: mod_eq_0_iff_dvd)
  moreover have "(4::int) dvd 100" by simp
  ultimately have "4 dvd y" by (rule dvd_trans [rotated])
  then show ?thesis by (simp add: mod_eq_0_iff_dvd)
qed

lemma DayFromYear_Suc: "DayFromYear (y + 1) = DayFromYear y + 365 + InLeapYear y"
proof -
  have a: "(y + 1 - 1969) div 4 = (if y mod 4 = 0 then (y - 1969) div 4 + 1 else (y - 1969) div 4)"
    using div_step [of 4 "y - 1969"] mod_shift [of 4 1968 y] by (simp add: algebra_simps)
  have b: "(y + 1 - 1901) div 100 = (if y mod 100 = 0 then (y - 1901) div 100 + 1 else (y - 1901) div 100)"
    using div_step [of 100 "y - 1901"] mod_shift [of 100 1900 y] by (simp add: algebra_simps)
  have c: "(y + 1 - 1601) div 400 = (if y mod 400 = 0 then (y - 1601) div 400 + 1 else (y - 1601) div 400)"
    using div_step [of 400 "y - 1601"] mod_shift [of 400 1600 y] by (simp add: algebra_simps)
  show ?thesis
    unfolding DayFromYear_def InLeapYear_def a b c
    using mod400_100 [of y] mod100_4 [of y] by auto
qed

lemma InLeapYear_range: "InLeapYear y = 0 \<or> InLeapYear y = 1"
  unfolding InLeapYear_def by simp

lemma DayFromYear_linear:
  "400 * DayFromYear (1970 + k) \<le> 146097 * k + 589
   \<and> 146097 * k - 506 \<le> 400 * DayFromYear (1970 + k)"
proof -
  define a where "a = (k + 1) div 4"
  define b where "b = (k + 69) div 100"
  define c where "c = (k + 369) div 400"
  have e: "400 * DayFromYear (1970 + k) = 146000 * k + 400 * a - 400 * b + 400 * c"
    unfolding DayFromYear_def a_def b_def c_def by (simp add: algebra_simps)
  have "4 * a \<le> k + 1 \<and> k + 1 < 4 * a + 4"
    unfolding a_def by (rule div_bounds) simp
  moreover have "100 * b \<le> k + 69 \<and> k + 69 < 100 * b + 100"
    unfolding b_def by (rule div_bounds) simp
  moreover have "400 * c \<le> k + 369 \<and> k + 369 < 400 * c + 400"
    unfolding c_def by (rule div_bounds) simp
  ultimately show ?thesis unfolding e by (elim conjE, intro conjI) linarith+
qed

lemma YearFromDay_bounds:
  "DayFromYear (YearFromDay d) \<le> d \<and> d < DayFromYear (YearFromDay d + 1)"
proof -
  define k where "k = (400 * d) div 146097"
  have k1: "146097 * k \<le> 400 * d" and k2: "400 * d < 146097 * k + 146097"
    unfolding k_def using div_bounds [of 146097 "400 * d"] by simp_all
  have lo: "DayFromYear (1970 + k - 1) \<le> d"
    using DayFromYear_linear [of "k - 1"] k1 by (simp add: algebra_simps)
  have hi: "d < DayFromYear (1970 + k + 1 + 1)"
    using DayFromYear_linear [of "k + 2"] k2 by (simp add: algebra_simps)
  show ?thesis
    unfolding YearFromDay_def Let_def k_def [symmetric]
    using lo hi by (auto simp: algebra_simps)
qed

lemma DayFromYear_mono: "y \<le> z \<Longrightarrow> DayFromYear y \<le> DayFromYear z"
proof -
  have step: "DayFromYear y \<le> DayFromYear (y + 1)" for y
    unfolding DayFromYear_Suc InLeapYear_def by simp
  have "DayFromYear y \<le> DayFromYear (y + int n)" for n
  proof (induction n)
    case 0 show ?case by simp
  next
    case (Suc n)
    then show ?case using step [of "y + int n"] by (simp add: algebra_simps)
  qed
  moreover assume "y \<le> z"
  ultimately show ?thesis using zle_iff_zadd by auto
qed

lemma YearFromDay_unique:
  assumes "DayFromYear y \<le> d" "d < DayFromYear (y + 1)"
  shows "YearFromDay d = y"
proof (rule ccontr)
  assume ne: "YearFromDay d \<noteq> y"
  note b = YearFromDay_bounds [of d]
  show False
  proof (cases "YearFromDay d < y")
    case True
    then have "DayFromYear (YearFromDay d + 1) \<le> DayFromYear y" by (intro DayFromYear_mono) simp
    with b assms show False by linarith
  next
    case False
    with ne have "y + 1 \<le> YearFromDay d" by simp
    then have "DayFromYear (y + 1) \<le> DayFromYear (YearFromDay d)" by (rule DayFromYear_mono)
    with b assms show False by linarith
  qed
qed

subsection \<open>Valid draw days\<close>

lemma isValidDrawDay_by_Day:
  assumes "Day (t + zone t) = d"
  shows "isValidDrawDay zone t = drawDay d"
proof -
  have e: "Day (t + zone t) = Day (MakeDate d 0)" using assms Day_MakeDate0 by simp
  show ?thesis
    unfolding isValidDrawDay_def isNoDrawDay_def getBrazilDayOfWeek_def getBrazilMonth_def
      getBrazilDayOfMonth_def drawDay_def Let_def
    using fields_by_Day [OF e] by auto
qed

lemma isValidDrawDay_noon:
  assumes "zoneBRT zone"
  shows "isValidDrawDay zone (d * msPerDay + 15 * msPerHour) = drawDay d"
proof (rule isValidDrawDay_by_Day)
  let ?t = "d * msPerDay + 15 * msPerHour"
  have "- 3 * msPerHour \<le> zone ?t" "zone ?t \<le> - 2 * msPerHour"
    using assms unfolding zoneBRT_def by simp_all
  then have "0 \<le> 15 * msPerHour + zone ?t" "15 * msPerHour + zone ?t < msPerDay"
    by (simp_all add: msPerHour_def msPerDay_def)
  then have "Day (d * msPerDay + (15 * msPerHour + zone ?t)) = d" by (rule Day_offset)
  then show "Day (?t + zone ?t) = d" by (simp add: algebra_simps)
qed

lemma isValidDrawDay_midnight:
  assumes "zoneBRT zone"
  shows "isValidDrawDay zone (d * msPerDay + 3 * msPerHour) = drawDay d"
proof (rule isValidDrawDay_by_Day)
  let ?t = "d * msPerDay + 3 * msPerHour"
  have "- 3 * msPerHour \<le> zone ?t" "zone ?t \<le> - 2 * msPerHour"
    using assms unfolding zoneBRT_def by simp_all
  then have "0 \<le> 3 * msPerHour + zone ?t" "3 * msPerHour + zone ?t < msPerDay"
    by (simp_all add: msPerHour_def msPerDay_def)
  then have "Day (d * msPerDay + (3 * msPerHour + zone ?t)) = d" by (rule Day_offset)
  then show "Day (?t + zone ?t) = d" by (simp add: algebra_simps)
qed

lemma drawDay_iff: "drawDay d = ((d + 4) mod 7 \<noteq> 0 \<and> \<not> noDrawDay d)"
  unfolding drawDay_def noDrawDay_def Let_def WeekDay_def Day_MakeDate0 by auto

lemma month_date_of_day:
  "MonthFromTime (MakeDate d 0) = monthOf (InLeapYear (YearFromDay d)) (d - DayFromYear (YearFromDay d))"
  "DateFromTime (MakeDate d 0) = d - DayFromYear (YearFromDay d)
        - monthStart (InLeapYear (YearFromDay d))
            (monthOf (InLeapYear (YearFromDay d)) (d - DayFromYear (YearFromDay d))) + 1"
  unfolding MonthFromTime_def DateFromTime_def DayWithinYear_def YearFromTime_def Day_MakeDate0
  by simp_all

text \<open>The day after a closure is not a closure, so a draw day comes within four days.\<close>

lemma noDrawDay_not_adjacent:
  assumes "noDrawDay d"
  shows "\<not> noDrawDay (d + 1)"
proof -
  define y where "y = YearFromDay d"
  define l where "l = InLeapYear y"
  define n where "n = d - DayFromYear y"
  have l: "l = 0 \<or> l = 1" unfolding l_def by (rule InLeapYear_range)
  have b: "DayFromYear y \<le> d" "d < DayFromYear y + 365 + l"
    using YearFromDay_bounds [of d] unfolding y_def l_def DayFromYear_Suc by simp_all
  have n0: "0 \<le> n" "n < 365 + l" using b unfolding n_def by simp_all
  from assms have cases: "(monthOf l n = 11 \<and> n - monthStart l 11 + 1 = 25)
                         \<or> (monthOf l n = 0 \<and> n - monthStart l 0 + 1 = 1)"
    unfolding noDrawDay_def Let_def month_date_of_day y_def [symmetric] l_def [symmetric]
      n_def [symmetric] by auto
  have n_val: "n = 358 + l \<or> n = 0"
    using cases by (auto simp: monthStart_def)
  have "DayFromYear y \<le> d + 1" "d + 1 < DayFromYear (y + 1)"
    using b n_val l unfolding DayFromYear_Suc l_def [symmetric] n_def by auto
  then have y': "YearFromDay (d + 1) = y" by (rule YearFromDay_unique)
  have n': "d + 1 - DayFromYear y = n + 1" unfolding n_def by simp
  show ?thesis
    unfolding noDrawDay_def Let_def month_date_of_day y' l_def [symmetric] n'
    using n_val l by (auto simp: monthOf_def monthStart_def)
qed

lemma sunday_far: "(a + 4) mod 7 = 0 \<Longrightarrow> (b + 4) mod 7 = 0 \<Longrightarrow> a < b \<Longrightarrow> a + 7 \<le> (b::int)"
proof -
  assume a: "(a + 4) mod 7 = 0" and b: "(b + 4) mod 7 = 0" and lt: "a < b"
  have "7 dvd b + 4" "7 dvd a + 4" using a b by (simp_all add: mod_eq_0_iff_dvd)
  then have "7 dvd (b + 4) - (a + 4)" by (rule dvd_diff)
  then have "7 dvd b - a" by simp
  then obtain k where k: "b - a = 7 * k" by (auto simp: dvd_def)
  with lt have "0 < k" by simp
  then have "1 \<le> k" by simp
  with k show ?thesis by simp
qed

lemma drawDay_within_four:
  "drawDay (d + 1) \<or> drawDay (d + 2) \<or> drawDay (d + 3) \<or> drawDay (d + 4)"
proof (rule ccontr)
  assume "\<not> ?thesis"
  then have n: "\<not> drawDay (d + 1)" "\<not> drawDay (d + 2)" "\<not> drawDay (d + 3)" "\<not> drawDay (d + 4)"
    by simp_all
  have adj12: "\<not> (noDrawDay (d + 1) \<and> noDrawDay (d + 2))"
    using noDrawDay_not_adjacent [of "d + 1"] by (simp add: algebra_simps)
  have adj34: "\<not> (noDrawDay (d + 3) \<and> noDrawDay (d + 4))"
    using noDrawDay_not_adjacent [of "d + 3"] by (simp add: algebra_simps)
  from n adj12 have s12: "(d + 1 + 4) mod 7 = 0 \<or> (d + 2 + 4) mod 7 = 0"
    unfolding drawDay_iff by auto
  from n adj34 have s34: "(d + 3 + 4) mod 7 = 0 \<or> (d + 4 + 4) mod 7 = 0"
    unfolding drawDay_iff by auto
  from s12 s34 show False
    using sunday_far [of "d + 1" "d + 3"] sunday_far [of "d + 1" "d + 4"]
      sunday_far [of "d + 2" "d + 3"] sunday_far [of "d + 2" "d + 4"]
    by auto
qed

lemma find_upto_Some:
  assumes "find P [a .. b] = Some x"
  shows "a \<le> x \<and> x \<le> b \<and> P x \<and> (\<forall>y. a \<le> y \<and> y < x \<longrightarrow> \<not> P y)"
proof -
  from assms obtain i where i: "i < length [a .. b]" "P ([a .. b] ! i)" "x = [a .. b] ! i"
    "\<forall>j<i. \<not> P ([a .. b] ! j)"
    unfolding find_Some_iff by blast
  from i(1) have ib: "a + int i \<le> b" by simp
  then have x: "x = a + int i" using i(3) by simp
  have "\<not> P y" if "a \<le> y" "y < x" for y
  proof -
    define j where "j = nat (y - a)"
    have j: "j < i" "y = a + int j" using that x unfolding j_def by simp_all
    then have "a + int j \<le> b" using ib by simp
    then have "[a .. b] ! j = y" using j by simp
    with i(4) j show ?thesis by auto
  qed
  then show ?thesis using x ib i(2,3) by auto
qed

lemma find_drawDay_14: "\<exists>x. find drawDay [d + 1 .. d + 14] = Some x"
proof -
  from drawDay_within_four [of d]
  obtain k where "drawDay (d + k)" "1 \<le> k" "k \<le> 4" by fastforce
  then have "d + k \<in> set [d + 1 .. d + 14] \<and> drawDay (d + k)" by simp
  then have "\<exists>x. x \<in> set [d + 1 .. d + 14] \<and> drawDay x" ..
  then have "find drawDay [d + 1 .. d + 14] \<noteq> None"
    unfolding find_None_iff by simp
  then show ?thesis by auto
qed

lemma isValidDrawDay_fixed:
  assumes "zone t = - 3 * msPerHour"
  shows "isValidDrawDay zone t =
     (\<not> (getBrazilDayOfWeek_first t = 0
         \<or> (month (getBrazilDateComponents t) = 12 \<and> day (getBrazilDateComponents t) = 25)
         \<or> (month (getBrazilDateComponents t) = 1 \<and> day (getBrazilDateComponents t) = 1)))"
proof -
  let ?u = "t - 3 * msPerHour"
  have d: "Day (t + zone t) = Day ?u" using assms by simp
  have w: "getBrazilDayOfWeek_first t = WeekDay ?u"
  proof -
    have "MakeDay (YearFromTime ?u) (MonthFromTime ?u + 1 - 1) (DateFromTime ?u) = Day ?u"
      using MakeDay_fields [of ?u 0] by simp
    then have "getBrazilDayOfWeek_first t = WeekDay (MakeDate (Day ?u) 0)"
      unfolding getBrazilDayOfWeek_first_def getBrazilDateComponents_def Let_def
      by (simp add: msPerHour_def)
    then show ?thesis unfolding WeekDay_def Day_MakeDate0 .
  qed
  have c: "month (getBrazilDateComponents t) = MonthFromTime ?u + 1"
    "day (getBrazilDateComponents t) = DateFromTime ?u"
    unfolding getBrazilDateComponents_def Let_def by (simp_all add: msPerHour_def)
  show ?thesis
    unfolding w c
    unfolding isValidDrawDay_def isNoDrawDay_def getBrazilDayOfWeek_def getBrazilMonth_def
      getBrazilDayOfMonth_def Let_def
    using fields_by_Day [OF d] by auto
qed

text \<open>
  The fields of the day \<open>MakeDay y m d\<close> are the year \<open>y\<close>, the month \<open>m\<close> and the date
  \<open>d\<close> it was made of, so the closures fall on the same dates every year.
\<close>

lemma month_cases:
  assumes "0 \<le> (m::int)" "m \<le> 11"
  obtains "m = 0" | "m = 1" | "m = 2" | "m = 3" | "m = 4" | "m = 5" | "m = 6" | "m = 7"
    | "m = 8" | "m = 9" | "m = 10" | "m = 11"
proof -
  have "m = 0 \<or> m = 1 \<or> m = 2 \<or> m = 3 \<or> m = 4 \<or> m = 5 \<or> m = 6 \<or> m = 7
        \<or> m = 8 \<or> m = 9 \<or> m = 10 \<or> m = 11"
    using assms by presburger
  then show ?thesis using that by blast
qed

lemma monthOf_between:
  assumes l: "l = 0 \<or> l = 1" and m: "0 \<le> m" "m \<le> 11"
    and lo: "monthStart l m \<le> n"
    and hi: "n < (if m = 11 then 365 + l else monthStart l (m + 1))"
  shows "monthOf l n = m"
  using m
proof (cases rule: month_cases)
  case 1 with l lo hi show ?thesis by (auto simp: monthOf_def monthStart_def)
next
  case 2 with l lo hi show ?thesis by (auto simp: monthOf_def monthStart_def)
next
  case 3 with l lo hi show ?thesis by (auto simp: monthOf_def monthStart_def)
next
  case 4 with l lo hi show ?thesis by (auto simp: monthOf_def monthStart_def)
next
  case 5 with l lo hi show ?thesis by (auto simp: monthOf_def monthStart_def)
next
  case 6 with l lo hi show ?thesis by (auto simp: monthOf_def monthStart_def)
next
  case 7 with l lo hi show ?thesis by (auto simp: monthOf_def monthStart_def)
next
  case 8 with l lo hi show ?thesis by (auto simp: monthOf_def monthStart_def)
next
  case 9 with l lo hi show ?thesis by (auto simp: monthOf_def monthStart_def)
next
  case 10 with l lo hi show ?thesis by (auto simp: monthOf_def monthStart_def)
next
  case 11 with l lo hi show ?thesis by (auto simp: monthOf_def monthStart_def)
next
  case 12 with l lo hi show ?thesis by (auto simp: monthOf_def monthStart_def)
qed

lemma monthStart_bounds:
  assumes l: "l = 0 \<or> l = 1" and m: "0 \<le> m" "m \<le> 11"
  shows "0 \<le> monthStart l m \<and> (if m = 11 then 365 + l else monthStart l (m + 1)) \<le> 365 + l"
  using m
proof (cases rule: month_cases)
  case 1 with l show ?thesis by (auto simp: monthStart_def)
next
  case 2 with l show ?thesis by (auto simp: monthStart_def)
next
  case 3 with l show ?thesis by (auto simp: monthStart_def)
next
  case 4 with l show ?thesis by (auto simp: monthStart_def)
next
  case 5 with l show ?thesis by (auto simp: monthStart_def)
next
  case 6 with l show ?thesis by (auto simp: monthStart_def)
next
  case 7 with l show ?thesis by (auto simp: monthStart_def)
next
  case 8 with l show ?thesis by (auto simp: monthStart_def)
next
  case 9 with l show ?thesis by (auto simp: monthStart_def)
next
  case 10 with l show ?thesis by (auto simp: monthStart_def)
next
  case 11 with l show ?thesis by (auto simp: monthStart_def)
next
  case 12 with l show ?thesis by (auto simp: monthStart_def)
qed

lemma fields_of_MakeDay:
  assumes m: "0 \<le> m" "m \<le> 11" and d: "1 \<le> d"
    and e: "monthStart (InLeapYear y) m + d - 1
            < (if m = 11 then 365 + InLeapYear y else monthStart (InLeapYear y) (m + 1))"
  shows "YearFromTime (MakeDate (MakeDay y m d) 0) = y
       \<and> MonthFromTime (MakeDate (MakeDay y m d) 0) = m
       \<and> DateFromTime (MakeDate (MakeDay y m d) 0) = d"
proof -
  define l where "l = InLeapYear y"
  define n where "n = monthStart l m + d - 1"
  have l: "l = 0 \<or> l = 1" unfolding l_def by (rule InLeapYear_range)
  have mm: "m div 12 = 0" "m mod 12 = m" using m by simp_all
  have D: "MakeDay y m d = DayFromYear y + n"
    unfolding MakeDay_def mm n_def l_def by simp
  note b = monthStart_bounds [OF l m]
  have lo: "monthStart l m \<le> n" using d unfolding n_def by simp
  have hi: "n < (if m = 11 then 365 + l else monthStart l (m + 1))"
    using e unfolding n_def l_def .
  have n0: "0 \<le> n" using b lo by linarith
  have n1: "n < 365 + l" using b hi by linarith
  have "DayFromYear y \<le> DayFromYear y + n" "DayFromYear y + n < DayFromYear (y + 1)"
    using n0 n1 unfolding DayFromYear_Suc l_def by simp_all
  then have y: "YearFromDay (DayFromYear y + n) = y" by (rule YearFromDay_unique)
  have mo: "monthOf l n = m" using l m lo hi by (rule monthOf_between)
  show ?thesis
    unfolding YearFromTime_def MonthFromTime_def DateFromTime_def DayWithinYear_def
      Day_MakeDate0 D y l_def [symmetric]
    using mo unfolding n_def by simp
qed

lemma closures_every_year:
  "\<not> drawDay (MakeDay y 11 25) \<and> \<not> drawDay (MakeDay y 0 1)
   \<and> drawDay (MakeDay y 11 24) = (WeekDay (MakeDate (MakeDay y 11 24) 0) \<noteq> 0)
   \<and> drawDay (MakeDay y 11 31) = (WeekDay (MakeDate (MakeDay y 11 31) 0) \<noteq> 0)"
proof -
  have l: "InLeapYear y = 0 \<or> InLeapYear y = 1" by (rule InLeapYear_range)
  have a: "MonthFromTime (MakeDate (MakeDay y 11 25) 0) = 11 \<and> DateFromTime (MakeDate (MakeDay y 11 25) 0) = 25"
    using fields_of_MakeDay [of 11 25 y] l by (auto simp: monthStart_def)
  have b: "MonthFromTime (MakeDate (MakeDay y 0 1) 0) = 0 \<and> DateFromTime (MakeDate (MakeDay y 0 1) 0) = 1"
    using fields_of_MakeDay [of 0 1 y] l by (auto simp: monthStart_def)
  have c: "MonthFromTime (MakeDate (MakeDay y 11 24) 0) = 11 \<and> DateFromTime (MakeDate (MakeDay y 11 24) 0) = 24"
    using fields_of_MakeDay [of 11 24 y] l by (auto simp: monthStart_def)
  have d: "MonthFromTime (MakeDate (MakeDay y 11 31) 0) = 11 \<and> DateFromTime (MakeDate (MakeDay y 11 31) 0) = 31"
    using fields_of_MakeDay [of 11 31 y] l by (auto simp: monthStart_def)
  show ?thesis unfolding drawDay_def Let_def using a b c d by simp
qed

lemma zoneBRT_fixedBRT: "zoneBRT fixedBRT"
  unfolding zoneBRT_def fixedBRT_def by (simp add: msPerHour_def)

text \<open>
  C8. \<open>isValidDrawDay\<close> is false exactly when the civil day of the date in the zone
  America/Sao_Paulo, as the host's time-zone data gives it, is a Sunday, the 25th of
  December or the 1st of January, and true for every other date, the 24th and 31st of
  December included. At every date at which the zone is three hours behind UTC this is the
  civil day of the fixed calendar three hours behind UTC, as \<open>getBrazilDateComponents\<close>
  and the first \<open>getBrazilDayOfWeek\<close> compute it. In every year \<open>y\<close> the 25th of
  December (the day \<open>MakeDay y 11 25\<close>) and the 1st of January are not draw days, and the
  24th and the 31st of December are draw days unless they are Sundays.
\<close>

theorem isValidDrawDay_civil_day_of_zone:
  "isValidDrawDay zone t = drawDay (Day (t + zone t))
   \<and> (zone t = - 3 * msPerHour \<longrightarrow>
        isValidDrawDay zone t =
          (\<not> (getBrazilDayOfWeek_first t = 0
              \<or> (month (getBrazilDateComponents t) = 12 \<and> day (getBrazilDateComponents t) = 25)
              \<or> (month (getBrazilDateComponents t) = 1 \<and> day (getBrazilDateComponents t) = 1))))
   \<and> \<not> drawDay (MakeDay y 11 25) \<and> \<not> drawDay (MakeDay y 0 1)
   \<and> drawDay (MakeDay y 11 24) = (WeekDay (MakeDate (MakeDay y 11 24) 0) \<noteq> 0)
   \<and> drawDay (MakeDay y 11 31) = (WeekDay (MakeDate (MakeDay y 11 31) 0) \<noteq> 0)"
  using isValidDrawDay_by_Day [of t zone "Day (t + zone t)"] isValidDrawDay_fixed [of zone t]
    closures_every_year [of y]
  by blast

theorem isValidDrawDay_civil_day_of_zone_witness:
  "fixedBRT CONCURSO_REFERENCE_date = - 3 * msPerHour
   \<and> isValidDrawDay fixedBRT CONCURSO_REFERENCE_date
   \<and> getBrazilDayOfWeek_first CONCURSO_REFERENCE_date = 1
   \<and> month (getBrazilDateComponents CONCURSO_REFERENCE_date) = 12
   \<and> day (getBrazilDateComponents CONCURSO_REFERENCE_date) = 15"
proof -
  let ?t = "CONCURSO_REFERENCE_date"
  have z: "fixedBRT ?t = - 3 * msPerHour" by (simp add: fixedBRT_def)
  have f: "getBrazilDayOfWeek_first ?t = 1" "month (getBrazilDateComponents ?t) = 12"
    "day (getBrazilDateComponents ?t) = 15"
    by code_simp+
  from isValidDrawDay_civil_day_of_zone [of fixedBRT ?t] z
  have "isValidDrawDay fixedBRT ?t =
          (\<not> (getBrazilDayOfWeek_first ?t = 0
              \<or> (month (getBrazilDateComponents ?t) = 12 \<and> day (getBrazilDateComponents ?t) = 25)
              \<or> (month (getBrazilDateComponents ?t) = 1 \<and> day (getBrazilDateComponents ?t) = 1)))"
    by blast
  then have "isValidDrawDay fixedBRT ?t" unfolding f by simp
  with z f show ?thesis by simp
qed

text \<open>
  On 2018-12-24 at 23:30 in the calendar three hours behind UTC, a Monday, the zone was
  two hours behind UTC and its civil day was the 25th: \<open>isValidDrawDay\<close> is false there.
\<close>

theorem isValidDrawDay_fixed_calendar_counterexample:
  "\<not> isValidDrawDay saoPauloOffset christmasEve2018
   \<and> getBrazilDayOfWeek_first christmasEve2018 = 1
   \<and> getBrazilDateComponents christmasEve2018
       = \<lparr>year = 2018, month = 12, day = 24, hour = 23, minute = 30, second = 0\<rparr>"
  by code_simp

section \<open>Contest numbers\<close>

lemma concursoLoop_forward:
  assumes z: "zoneBRT zone"
  shows "concursoLoop zone 1 ((c + int n) * msPerDay + 12 * msPerHour)
           (c * msPerDay + 12 * msPerHour) acc
         = acc + int (length (filter drawDay [c + 1 .. c + int n]))"
proof (induction n arbitrary: c acc)
  case 0
  show ?case by (subst concursoLoop.simps) simp
next
  case (Suc n)
  let ?cur = "c * msPerDay + 12 * msPerHour"
  let ?tgt = "(c + int (Suc n)) * msPerDay + 12 * msPerHour"
  have lt: "?cur < ?tgt" by (simp add: msPerDay_def)
  have cur': "setUTCDate ?cur (getUTCDate ?cur + 1) = (c + 1) * msPerDay + 12 * msPerHour"
    unfolding setUTCDate_getUTCDate by (simp add: algebra_simps)
  have day': "Day ((c + 1) * msPerDay + 12 * msPerHour) = c + 1"
    by (rule Day_offset) (simp_all add: msPerHour_def msPerDay_def)
  have brazil: "parseISO (toISODate ((c + 1) * msPerDay + 12 * msPerHour)) (12 * msPerHour) (- 3 * msPerHour)
                = (c + 1) * msPerDay + 15 * msPerHour"
    unfolding parseISO_toISODate day' by simp
  have tgt: "?tgt = (c + 1 + int n) * msPerDay + 12 * msPerHour" by (simp add: algebra_simps)
  have up: "[c + 1 .. c + int (Suc n)] = (c + 1) # [c + 1 + 1 .. c + 1 + int n]"
    by (subst upto_rec1) (simp_all add: algebra_simps)
  show ?case
    apply (subst concursoLoop.simps)
    apply (simp only: lt cur' brazil Let_def isValidDrawDay_noon [OF z] up)
    apply (simp only: tgt Suc.IH)
    apply simp
    done
qed

lemma concursoLoop_backward:
  assumes z: "zoneBRT zone"
  shows "concursoLoop zone (- 1) (c * msPerDay + 12 * msPerHour)
           ((c + int n) * msPerDay + 12 * msPerHour) acc
         = acc + int (length (filter drawDay [c .. c + int n - 1]))"
proof (induction n arbitrary: acc)
  case 0
  show ?case by (subst concursoLoop.simps) simp
next
  case (Suc n)
  let ?cur = "(c + int (Suc n)) * msPerDay + 12 * msPerHour"
  let ?tgt = "c * msPerDay + 12 * msPerHour"
  have gt: "?cur > ?tgt" by (simp add: msPerDay_def)
  have cur': "setUTCDate ?cur (getUTCDate ?cur + - 1) = (c + int n) * msPerDay + 12 * msPerHour"
    unfolding setUTCDate_getUTCDate by (simp add: algebra_simps)
  have day': "Day ((c + int n) * msPerDay + 12 * msPerHour) = c + int n"
    by (rule Day_offset) (simp_all add: msPerHour_def msPerDay_def)
  have brazil: "parseISO (toISODate ((c + int n) * msPerDay + 12 * msPerHour)) (12 * msPerHour) (- 3 * msPerHour)
                = (c + int n) * msPerDay + 15 * msPerHour"
    unfolding parseISO_toISODate day' by simp
  have up: "[c .. c + int (Suc n) - 1] = [c .. c + int n - 1] @ [c + int n]"
    by (subst upto_rec2) (simp_all add: algebra_simps)
  show ?case
    apply (subst concursoLoop.simps)
    apply (simp only: gt cur' brazil Let_def isValidDrawDay_noon [OF z] up)
    apply (simp only: Suc.IH)
    apply simp
    done
qed

lemma calculateConcurso_count:
  assumes z: "zoneBRT zone"
  shows "calculateConcurso zone x = concursoByCount (civilDayOf x)"
proof -
  let ?R = "referenceDay" and ?T = "civilDayOf x"
  have ref: "parseISO (getBrazilDateString CONCURSO_REFERENCE_date) (12 * msPerHour) 0
             = ?R * msPerDay + 12 * msPerHour"
    unfolding getBrazilDateString_toISODate parseISO_toISODate referenceDay_def by simp
  have tgt: "parseISO (case x of DateText s \<Rightarrow> s | DateObject t \<Rightarrow> getBrazilDateString t)
               (12 * msPerHour) 0 = ?T * msPerDay + 12 * msPerHour"
  proof (cases x)
    case (DateObject t)
    then show ?thesis
      by (simp add: civilDayOf_def getBrazilDateString_toISODate parseISO_toISODate)
  next
    case (DateText s)
    then show ?thesis
      by (simp add: civilDayOf_def parseISO_def MakeDate_def)
  qed
  have cmp: "(?R * msPerDay + 12 * msPerHour \<le> ?T * msPerDay + 12 * msPerHour) = (?R \<le> ?T)"
    by (simp add: msPerDay_def)
  show ?thesis
  proof (cases "?R \<le> ?T")
    case True
    then obtain n where n: "?T = ?R + int n" using zle_iff_zadd by auto
    show ?thesis
      unfolding calculateConcurso_def Let_def ref tgt cmp concursoByCount_def
      using True concursoLoop_forward [OF z, of ?R n 0] n by simp
  next
    case False
    then have "?T \<le> ?R" by simp
    then obtain n where n: "?R = ?T + int n" using zle_iff_zadd by auto
    show ?thesis
      unfolding calculateConcurso_def Let_def ref tgt cmp concursoByCount_def
      using False concursoLoop_backward [OF z, of ?T n 0] n by simp
  qed
qed

lemma count_pos: "x \<in> set xs \<Longrightarrow> P x \<Longrightarrow> 1 \<le> length (filter P xs)"
proof -
  assume "x \<in> set xs" "P x"
  then have "filter P xs \<noteq> []" by (auto simp: filter_empty_conv)
  then show ?thesis by (cases "filter P xs") simp_all
qed

lemma concursoByCount_mono:
  assumes a: "drawDay a" and b: "drawDay b" and lt: "a < b"
  shows "concursoByCount a < concursoByCount b"
proof -
  let ?R = referenceDay
  consider "?R \<le> a" | "a < ?R" "?R \<le> b" | "b < ?R" by linarith
  then show ?thesis
  proof cases
    case 1
    have "[?R + 1 .. b] = [?R + 1 .. a] @ [a + 1 .. b]"
    proof (cases "?R = a")
      case True
      then show ?thesis by simp
    next
      case False
      with 1 have "?R + 1 \<le> a" by simp
      then show ?thesis using lt by (intro upto_split2) simp_all
    qed
    then have "length (filter drawDay [?R + 1 .. b])
               = length (filter drawDay [?R + 1 .. a]) + length (filter drawDay [a + 1 .. b])"
      by (simp only: filter_append length_append)
    moreover have "1 \<le> length (filter drawDay [a + 1 .. b])"
      by (rule count_pos [of b]) (use lt b in simp_all)
    moreover have "concursoByCount a
                   = CONCURSO_REFERENCE_number + int (length (filter drawDay [?R + 1 .. a]))"
      using 1 unfolding concursoByCount_def by simp
    moreover have "concursoByCount b
                   = CONCURSO_REFERENCE_number + int (length (filter drawDay [?R + 1 .. b]))"
      using 1 lt unfolding concursoByCount_def by simp
    ultimately show ?thesis by linarith
  next
    case 2
    have "1 \<le> length (filter drawDay [a .. ?R - 1])"
      by (rule count_pos [of a]) (use 2 a in simp_all)
    moreover have "concursoByCount a
                   = CONCURSO_REFERENCE_number - int (length (filter drawDay [a .. ?R - 1]))"
      using 2 unfolding concursoByCount_def by simp
    moreover have "concursoByCount b
                   = CONCURSO_REFERENCE_number + int (length (filter drawDay [?R + 1 .. b]))"
      using 2 unfolding concursoByCount_def by simp
    ultimately show ?thesis by linarith
  next
    case 3
    have "[a .. ?R - 1] = [a .. b - 1] @ [b - 1 + 1 .. ?R - 1]"
      using 3 lt by (intro upto_split2) simp_all
    then have "length (filter drawDay [a .. ?R - 1])
               = length (filter drawDay [a .. b - 1]) + length (filter drawDay [b .. ?R - 1])"
      by (simp only: filter_append length_append) simp
    moreover have "1 \<le> length (filter drawDay [a .. b - 1])"
      by (rule count_pos [of a]) (use lt a in simp_all)
    moreover have "concursoByCount a
                   = CONCURSO_REFERENCE_number - int (length (filter drawDay [a .. ?R - 1]))"
      using 3 lt unfolding concursoByCount_def by simp
    moreover have "concursoByCount b
                   = CONCURSO_REFERENCE_number - int (length (filter drawDay [b .. ?R - 1]))"
      using 3 unfolding concursoByCount_def by simp
    ultimately show ?thesis by linarith
  qed
qed

lemma upto_append: "a \<le> b + 1 \<Longrightarrow> b \<le> c \<Longrightarrow> [a .. c] = [a .. b] @ [b + 1 .. c]"
proof (cases "a \<le> b")
  case True
  assume "b \<le> c"
  with True show ?thesis by (rule upto_split2)
next
  case False
  assume "a \<le> b + 1"
  with False have "a = b + 1" by simp
  then show ?thesis by simp
qed

lemma nextDrawDay_props:
  "d < nextDrawDay d \<and> nextDrawDay d \<le> d + 14 \<and> drawDay (nextDrawDay d)
   \<and> (\<forall>y. d < y \<and> y < nextDrawDay d \<longrightarrow> \<not> drawDay y)"
proof -
  obtain x where f: "find drawDay [d + 1 .. d + 14] = Some x"
    using find_drawDay_14 by blast
  then have "nextDrawDay d = x" unfolding nextDrawDay_def by simp
  with find_upto_Some [OF f] show ?thesis by auto
qed

lemma count_to_nextDrawDay: "length (filter drawDay [d + 1 .. nextDrawDay d]) = 1"
proof -
  note p = nextDrawDay_props [of d]
  have "[d + 1 .. nextDrawDay d] = [d + 1 .. nextDrawDay d - 1] @ [nextDrawDay d]"
    using p by (intro upto_rec2) simp
  moreover have "filter drawDay [d + 1 .. nextDrawDay d - 1] = []"
    using p by (auto simp: filter_empty_conv)
  ultimately show ?thesis using p by simp
qed

lemma nthDrawDay_ge: "referenceDay \<le> nthDrawDay n"
proof (induction n)
  case 0
  show ?case by simp
next
  case (Suc n)
  then show ?case using nextDrawDay_props [of "nthDrawDay n"] by simp
qed

lemma count_to_nthDrawDay: "length (filter drawDay [referenceDay + 1 .. nthDrawDay n]) = n"
proof (induction n)
  case 0
  show ?case by simp
next
  case (Suc n)
  let ?d = "nthDrawDay n"
  have "[referenceDay + 1 .. nextDrawDay ?d] = [referenceDay + 1 .. ?d] @ [?d + 1 .. nextDrawDay ?d]"
    using nthDrawDay_ge [of n] nextDrawDay_props [of ?d] by (intro upto_append) simp_all
  then show ?case using Suc count_to_nextDrawDay [of ?d] by simp
qed

lemma nthDrawDay_is_nth: "1 \<le> n \<Longrightarrow> nthDrawDayAfterReference (nthDrawDay n) n"
proof -
  assume "1 \<le> n"
  then obtain m where n: "n = Suc m" by (cases n) simp_all
  have "referenceDay < nthDrawDay (Suc m)" "drawDay (nthDrawDay (Suc m))"
    using nthDrawDay_ge [of m] nextDrawDay_props [of "nthDrawDay m"] by simp_all
  then show ?thesis
    unfolding nthDrawDayAfterReference_def n using count_to_nthDrawDay [of "Suc m"] by simp
qed

text \<open>
  C3. For every target date, the contest number is the reference number plus the number
  of valid draw days after the reference day up to and including the target day, when
  the target is not before the reference; and the reference number minus the number of
  valid draw days from the target day, included, up to the reference day, excluded, when
  the target is before the reference. The reference day itself is never counted.
\<close>

theorem concurso_counts_draw_days_through_target:
  assumes "zoneBRT zone" and "validDateInput x"
  shows "calculateConcurso zone x =
     (if referenceDay \<le> civilDayOf x
      then CONCURSO_REFERENCE_number
           + int (length (filter drawDay [referenceDay + 1 .. civilDayOf x]))
      else CONCURSO_REFERENCE_number
           - int (length (filter drawDay [civilDayOf x .. referenceDay - 1])))"
  using calculateConcurso_count [OF assms(1), of x] unfolding concursoByCount_def .

theorem concurso_counts_draw_days_through_target_witness:
  "zoneBRT fixedBRT \<and> validDateInput december22
   \<and> calculateConcurso fixedBRT december22 = 6909"
proof -
  have v: "validDateInput december22" by code_simp
  have "calculateConcurso fixedBRT december22 =
     (if referenceDay \<le> civilDayOf december22
      then CONCURSO_REFERENCE_number
           + int (length (filter drawDay [referenceDay + 1 .. civilDayOf december22]))
      else CONCURSO_REFERENCE_number
           - int (length (filter drawDay [civilDayOf december22 .. referenceDay - 1])))"
    by (rule concurso_counts_draw_days_through_target [OF zoneBRT_fixedBRT v])
  also have "\<dots> = 6909" by code_simp
  finally show ?thesis using zoneBRT_fixedBRT v by simp
qed

text \<open>
  For the day after the reference day no day lies strictly between the two, and the
  contest number is 6904, not 6903.
\<close>

theorem concurso_strictly_between_counterexample:
  "calculateConcurso fixedBRT december16 = 6904
   \<and> CONCURSO_REFERENCE_number
       + int (length (filter drawDay [referenceDay + 1 .. civilDayOf december16 - 1])) = 6903"
  by code_simp

text \<open>
  C4. \<open>calculateConcurso\<close> of the reference date is the reference number 6903; of the
  \<open>n\<close>-th valid draw day after the reference date it is \<open>6903 + n\<close>, and for every
  \<open>n \<ge> 1\<close> there is such a day; so the contest number is strictly increasing along the
  valid draw days.
\<close>

theorem concurso_of_nth_draw_day:
  assumes z: "zoneBRT zone"
  shows "calculateConcurso zone (DateObject CONCURSO_REFERENCE_date) = CONCURSO_REFERENCE_number
       \<and> CONCURSO_REFERENCE_number = 6903
       \<and> (\<forall>x n. validDateInput x \<and> nthDrawDayAfterReference (civilDayOf x) n
              \<longrightarrow> calculateConcurso zone x = 6903 + int n)
       \<and> (\<forall>n. 1 \<le> n \<longrightarrow> nthDrawDayAfterReference (nthDrawDay n) n)
       \<and> (\<forall>x y. validDateInput x \<and> validDateInput y
              \<and> drawDay (civilDayOf x) \<and> drawDay (civilDayOf y) \<and> civilDayOf x < civilDayOf y
              \<longrightarrow> calculateConcurso zone x < calculateConcurso zone y)"
proof -
  have "civilDayOf (DateObject CONCURSO_REFERENCE_date) = referenceDay"
    unfolding civilDayOf_def referenceDay_def by simp
  then have one: "calculateConcurso zone (DateObject CONCURSO_REFERENCE_date)
                  = CONCURSO_REFERENCE_number"
    unfolding calculateConcurso_count [OF z] concursoByCount_def by simp
  have two: "CONCURSO_REFERENCE_number = 6903" by (simp add: CONCURSO_REFERENCE_number_def)
  have three: "calculateConcurso zone x = 6903 + int n"
    if "nthDrawDayAfterReference (civilDayOf x) n" for x n
    using that unfolding calculateConcurso_count [OF z] concursoByCount_def
      nthDrawDayAfterReference_def two by simp
  have four: "\<forall>n. 1 \<le> n \<longrightarrow> nthDrawDayAfterReference (nthDrawDay n) n"
    using nthDrawDay_is_nth by blast
  have five: "calculateConcurso zone x < calculateConcurso zone y"
    if "drawDay (civilDayOf x)" "drawDay (civilDayOf y)" "civilDayOf x < civilDayOf y" for x y
    unfolding calculateConcurso_count [OF z] using that by (rule concursoByCount_mono)
  from one two three four five show ?thesis by blast
qed

theorem concurso_of_nth_draw_day_witness:
  "zoneBRT fixedBRT \<and> validDateInput december16 \<and> validDateInput december17
   \<and> nthDrawDayAfterReference (civilDayOf december16) 1
   \<and> calculateConcurso fixedBRT december16 = 6903 + int 1
   \<and> drawDay (civilDayOf december16) \<and> drawDay (civilDayOf december17)
   \<and> civilDayOf december16 < civilDayOf december17
   \<and> calculateConcurso fixedBRT december16 < calculateConcurso fixedBRT december17"
proof -
  note t = concurso_of_nth_draw_day [OF zoneBRT_fixedBRT]
  have v: "validDateInput december16" "validDateInput december17" by code_simp+
  have n: "nthDrawDayAfterReference (civilDayOf december16) 1" by code_simp
  have d: "drawDay (civilDayOf december16)" "drawDay (civilDayOf december17)"
    "civilDayOf december16 < civilDayOf december17"
    by code_simp+
  from t v(1) n have a: "calculateConcurso fixedBRT december16 = 6903 + int 1" by blast
  from t v d
  have b: "calculateConcurso fixedBRT december16 < calculateConcurso fixedBRT december17"
    by blast
  from zoneBRT_fixedBRT v n d a b show ?thesis by blast
qed

section \<open>The schedule resolver\<close>

subsection \<open>On a host that keeps one offset\<close>

lemma time_fields:
  "MakeTime (HourFromTime t) (MinFromTime t) (SecFromTime t) (msFromTime t) = TimeWithinDay t"
proof -
  have a: "t mod (1000 * 60) = 1000 * (t div 1000 mod 60) + t mod 1000"
    by (rule zmod_zmult2_eq) simp
  have b: "t mod (60000 * 60) = 60000 * (t div 60000 mod 60) + t mod 60000"
    by (rule zmod_zmult2_eq) simp
  have c: "t mod (3600000 * 24) = 3600000 * (t div 3600000 mod 24) + t mod 3600000"
    by (rule zmod_zmult2_eq) simp
  from a b c show ?thesis
    unfolding MakeTime_def HourFromTime_def MinFromTime_def SecFromTime_def msFromTime_def
      TimeWithinDay_def msPerHour_def msPerDay_def
    by simp
qed

lemma setDate_constant:
  assumes "constantHost host"
  shows "setDate host t (getDate host t + k) = t + k * msPerDay"
proof -
  define c where "c = host 0 True"
  have h: "host u b = c" for u b using assms unfolding constantHost_def c_def by simp
  have "setDate host t (getDate host t + k) = setUTCDate (t + c) (getUTCDate (t + c) + k) - c"
    unfolding setDate_def getDate_def LocalTime_def UTC_def Let_def h setUTCDate_def getUTCDate_def
    by simp
  then show ?thesis unfolding setUTCDate_getUTCDate by simp
qed

lemma setSeconds_constant:
  assumes "constantHost host"
  shows "setSeconds host t (getSeconds host t + k) = t + k * 1000"
proof -
  define c where "c = host 0 True"
  have h: "host u b = c" for u b using assms unfolding constantHost_def c_def by simp
  let ?lt = "t + c"
  have "MakeTime (HourFromTime ?lt) (MinFromTime ?lt) (SecFromTime ?lt + k) (msFromTime ?lt)
        = TimeWithinDay ?lt + k * 1000"
    unfolding time_fields [of ?lt, symmetric] MakeTime_def by (simp add: algebra_simps)
  moreover have "?lt = Day ?lt * msPerDay + TimeWithinDay ?lt"
    unfolding Day_def TimeWithinDay_def by simp
  ultimately show ?thesis
    unfolding setSeconds_def getSeconds_def LocalTime_def UTC_def Let_def h MakeDate_def
    by simp
qed

lemma isEarlyDrawDay_midnight:
  assumes "zoneBRT zone"
  shows "isEarlyDrawDay zone (d * msPerDay + 3 * msPerHour) = earlyDrawDay d"
proof -
  let ?t = "d * msPerDay + 3 * msPerHour"
  have "- 3 * msPerHour \<le> zone ?t" "zone ?t \<le> - 2 * msPerHour"
    using assms unfolding zoneBRT_def by simp_all
  then have "0 \<le> 3 * msPerHour + zone ?t" "3 * msPerHour + zone ?t < msPerDay"
    by (simp_all add: msPerHour_def msPerDay_def)
  then have "Day (d * msPerDay + (3 * msPerHour + zone ?t)) = d" by (rule Day_offset)
  then have "Day (?t + zone ?t) = Day (MakeDate d 0)"
    by (simp add: algebra_simps Day_MakeDate0)
  from fields_by_Day [OF this] show ?thesis
    unfolding isEarlyDrawDay_def earlyDrawDay_def getBrazilMonth_def getBrazilDayOfMonth_def
      Let_def
    by simp
qed

text \<open>
  On such a host the schedule built for a day is the plan of the day.
\<close>

lemma scheduleOfDay_constant:
  assumes z: "zoneBRT zone" and h: "constantHost host"
  shows "scheduleOfDay zone host d = planOfDay d"
proof -
  have dd: "parseISO (dateStringOfDay d) 0 (- 3 * msPerHour) = d * msPerDay + 3 * msPerHour"
    unfolding parseISO_dateStringOfDay by simp
  have co: "setSeconds host t (getSeconds host t - 1) = t - 1000" for t
    using setSeconds_constant [OF h, of t "- 1"] by simp
  have rs: "setDate host t (getDate host t - 1) = t - msPerDay" for t
    using setDate_constant [OF h, of t "- 1"] by simp
  have "d * msPerDay + 3 * msPerHour - msPerDay - 3 * msPerHour = (d - 1) * msPerDay + 0"
    by (simp add: algebra_simps)
  then have "Day (d * msPerDay + 3 * msPerHour - msPerDay - 3 * msPerHour) = d - 1"
    using Day_offset [of 0 "d - 1"] by (simp add: msPerDay_def)
  then have str: "getBrazilDateString (d * msPerDay + 3 * msPerHour - msPerDay)
                  = dateStringOfDay (d - 1)"
    unfolding getBrazilDateString_by_Day by simp
  show ?thesis
    unfolding scheduleOfDay_def buildScheduleForDate_def planOfDay_def Let_def dateInput.case
      dd co rs str getDrawTimeHour_def isEarlyDrawDay_midnight [OF z]
    unfolding parseISO_dateStringOfDay
    by (simp add: algebra_simps)
qed

lemma scanForward_find:
  assumes z: "zoneBRT zone" and h: "constantHost host"
  shows "scanForward zone host spNow n (p * msPerDay + 3 * msPerHour)
         = (case find drawDay [p + 1 .. p + int n] of
              None \<Rightarrow> Inl NoValidDrawDate
            | Some d \<Rightarrow> Inr (withNow (planOfDay d) spNow))"
proof (induction n arbitrary: p)
  case 0
  show ?case by simp
next
  case (Suc n)
  have probe': "setDate host (p * msPerDay + 3 * msPerHour)
                  (getDate host (p * msPerDay + 3 * msPerHour) + 1)
                = (p + 1) * msPerDay + 3 * msPerHour"
    unfolding setDate_constant [OF h] by (simp add: algebra_simps)
  have str: "getBrazilDateString ((p + 1) * msPerDay + 3 * msPerHour) = dateStringOfDay (p + 1)"
    unfolding getBrazilDateString_by_Day Day_midnight ..
  have pd: "parseISO (dateStringOfDay (p + 1)) 0 (- 3 * msPerHour) = (p + 1) * msPerDay + 3 * msPerHour"
    unfolding parseISO_dateStringOfDay by simp
  have up: "[p + 1 .. p + int (Suc n)] = (p + 1) # [p + 1 + 1 .. p + 1 + int n]"
    by (subst upto_rec1) (simp_all add: algebra_simps)
  have sd: "buildScheduleForDate zone host (DateText (dateStringOfDay (p + 1))) = planOfDay (p + 1)"
    using scheduleOfDay_constant [OF z h, of "p + 1"] unfolding scheduleOfDay_def .
  show ?case
    unfolding scanForward.simps Let_def probe' str pd isValidDrawDay_midnight [OF z] up
      find.simps Suc.IH sd
    by simp
qed

lemma getCurrentDrawSchedule_eq:
  assumes z: "zoneBRT zone" and h: "constantHost host"
  shows "getCurrentDrawSchedule zone host spNow =
     (if drawDay (Day (spNow - 3 * msPerHour))
         \<and> spNow \<le> cutoff (planOfDay (Day (spNow - 3 * msPerHour)))
      then Inr (withNow (planOfDay (Day (spNow - 3 * msPerHour))) spNow)
      else (case find drawDay [Day (spNow - 3 * msPerHour) + 1 .. Day (spNow - 3 * msPerHour) + 14] of
              None \<Rightarrow> Inl NoValidDrawDate
            | Some d \<Rightarrow> Inr (withNow (planOfDay d) spNow)))"
proof -
  let ?T = "Day (spNow - 3 * msPerHour)"
  have pd: "parseISO (dateStringOfDay ?T) 0 (- 3 * msPerHour) = ?T * msPerDay + 3 * msPerHour"
    unfolding parseISO_dateStringOfDay by simp
  have scan: "scanForward zone host spNow 14 (?T * msPerDay + 3 * msPerHour)
              = (case find drawDay [?T + 1 .. ?T + 14] of
                   None \<Rightarrow> Inl NoValidDrawDate
                 | Some d \<Rightarrow> Inr (withNow (planOfDay d) spNow))"
    using scanForward_find [OF z h, of spNow 14 ?T] by simp
  have sd: "buildScheduleForDate zone host (DateText (dateStringOfDay ?T)) = planOfDay ?T"
    using scheduleOfDay_constant [OF z h, of ?T] unfolding scheduleOfDay_def .
  show ?thesis
    unfolding getCurrentDrawSchedule_def Let_def getBrazilDateString_by_Day pd
      isValidDrawDay_midnight [OF z] scan sd
    by simp
qed

lemma cutoff_planOfDay:
  "cutoff (planOfDay d) = d * msPerDay + 20 * msPerHour - 1000
   \<or> cutoff (planOfDay d) = d * msPerDay + 23 * msPerHour - 1000"
  unfolding planOfDay_def Let_def by (simp add: algebra_simps)

text \<open>
  On a host whose local time keeps one offset from UTC, the resolver does what the
  specification says. For every valid draw day \<open>D\<close>, the current schedule one second
  before the cutoff of \<open>D\<close> is the plan of \<open>D\<close>, and one second after that cutoff it is
  the plan of the next valid draw day after \<open>D\<close>. When today is not a valid draw day the
  scan starts at the day after today and covers at most 14 days; it always finds a day.
\<close>

lemma currentSchedule_on_constant_host:
  assumes z: "zoneBRT zone" and h: "constantHost host" and D: "drawDay D"
    and r: "fourDigitYear D \<and> fourDigitYear (D + 14)"
  shows "getCurrentDrawSchedule zone host (cutoff (planOfDay D) - 1000)
           = Inr (withNow (planOfDay D) (cutoff (planOfDay D) - 1000))
       \<and> (\<exists>D'. D < D' \<and> D' \<le> D + 14 \<and> drawDay D' \<and> (\<forall>d. D < d \<and> d < D' \<longrightarrow> \<not> drawDay d)
             \<and> getCurrentDrawSchedule zone host (cutoff (planOfDay D) + 1000)
               = Inr (withNow (planOfDay D') (cutoff (planOfDay D) + 1000)))
       \<and> (\<forall>spNow. fourDigitYear (Day (spNow - 3 * msPerHour))
                   \<and> \<not> drawDay (Day (spNow - 3 * msPerHour))
              \<longrightarrow> getCurrentDrawSchedule zone host spNow
                  = (case find drawDay [Day (spNow - 3 * msPerHour) + 1
                                        .. Day (spNow - 3 * msPerHour) + 14] of
                       None \<Rightarrow> Inl NoValidDrawDate
                     | Some d \<Rightarrow> Inr (withNow (planOfDay d) spNow))
                \<and> find drawDay [Day (spNow - 3 * msPerHour) + 1
                                 .. Day (spNow - 3 * msPerHour) + 14] \<noteq> None)"
proof -
  let ?c = "cutoff (planOfDay D)"
  have day_in: "Day (?c + k - 3 * msPerHour) = D" if "k = 1000 \<or> k = - 1000" for k
  proof -
    from cutoff_planOfDay [of D] that
    consider "?c + k - 3 * msPerHour = D * msPerDay + 61198000"
      | "?c + k - 3 * msPerHour = D * msPerDay + 61200000"
      | "?c + k - 3 * msPerHour = D * msPerDay + 71998000"
      | "?c + k - 3 * msPerHour = D * msPerDay + 72000000"
      by (auto simp: msPerHour_def)
    then show ?thesis
    proof cases
      case 1 show ?thesis unfolding 1 by (rule Day_offset) (simp_all add: msPerDay_def)
    next
      case 2 show ?thesis unfolding 2 by (rule Day_offset) (simp_all add: msPerDay_def)
    next
      case 3 show ?thesis unfolding 3 by (rule Day_offset) (simp_all add: msPerDay_def)
    next
      case 4 show ?thesis unfolding 4 by (rule Day_offset) (simp_all add: msPerDay_def)
    qed
  qed
  have day1: "Day (?c - 1000 - 3 * msPerHour) = D" using day_in [of "- 1000"] by simp
  have day2: "Day (?c + 1000 - 3 * msPerHour) = D" using day_in [of 1000] by simp
  have first: "getCurrentDrawSchedule zone host (?c - 1000) = Inr (withNow (planOfDay D) (?c - 1000))"
    unfolding getCurrentDrawSchedule_eq [OF z h] day1 using D by simp
  obtain D' where f: "find drawDay [D + 1 .. D + 14] = Some D'"
    using find_drawDay_14 by blast
  have second: "getCurrentDrawSchedule zone host (?c + 1000) = Inr (withNow (planOfDay D') (?c + 1000))"
    unfolding getCurrentDrawSchedule_eq [OF z h] day2 using f by simp
  have third: "getCurrentDrawSchedule zone host spNow
                 = (case find drawDay [Day (spNow - 3 * msPerHour) + 1
                                       .. Day (spNow - 3 * msPerHour) + 14] of
                      None \<Rightarrow> Inl NoValidDrawDate
                    | Some d \<Rightarrow> Inr (withNow (planOfDay d) spNow))
               \<and> find drawDay [Day (spNow - 3 * msPerHour) + 1
                                .. Day (spNow - 3 * msPerHour) + 14] \<noteq> None"
    if "\<not> drawDay (Day (spNow - 3 * msPerHour))" for spNow
    unfolding getCurrentDrawSchedule_eq [OF z h]
    using that find_drawDay_14 [of "Day (spNow - 3 * msPerHour)"] by auto
  from find_upto_Some [OF f] have "D < D'" "D' \<le> D + 14" "drawDay D'"
    "\<forall>d. D < d \<and> d < D' \<longrightarrow> \<not> drawDay d"
    by auto
  with first second third show ?thesis by blast
qed

lemma constantHost_fixedHost: "constantHost (fixedHost c)"
  unfolding constantHost_def fixedHost_def by simp

text \<open>
  Monday 2025-12-15 is day 20437. On a host three hours behind UTC, one second before
  its cutoff at 19:59:59 the current schedule is that of the day, one second after the
  cutoff it is that of Tuesday, and at noon of the Sunday before it is that of the Monday.
\<close>

lemma currentSchedule_on_constant_host_example:
  "drawDay 20437
   \<and> planOfDay 20437
       = \<lparr>sched_drawDate = 1765767600000, drawHour = 20, cutoff = 1765839599000,
          regStart = 1765753201000\<rparr>
   \<and> getCurrentDrawSchedule fixedBRT (fixedHost (- 3 * msPerHour)) 1765839598000
       = Inr (withNow (planOfDay 20437) 1765839598000)
   \<and> getCurrentDrawSchedule fixedBRT (fixedHost (- 3 * msPerHour)) 1765839600000
       = Inr (withNow (planOfDay 20438) 1765839600000)
   \<and> getCurrentDrawSchedule fixedBRT (fixedHost (- 3 * msPerHour)) sundayNoon
       = Inr (withNow (planOfDay 20437) sundayNoon)"
  by code_simp

subsection \<open>On a host whose clocks go forward\<close>

text \<open>
  C7. The resolver moves from one day to the next with \<open>probe.setDate(probe.getDate() + 1)\<close>,
  in the local time of the host, from midnight three hours behind UTC. When the clocks of
  the host go forward by an hour during the day that follows, the local day after is only
  23 hours later: the probe is still in the same day three hours behind UTC, and the
  resolver, one second after the cutoff of a valid draw day, returns the schedule of that
  same day, whose cutoff has passed, and not that of the next valid draw day. This is so
  on Thursday 2026-03-26 for a host in the zone Asia/Jerusalem, at 20:00:00 three hours
  behind UTC: the schedule returned is that of Thursday, with the cutoff 19:59:59 of that
  day, while the next valid draw day is Friday, whose schedule a host that keeps one offset
  returns.
\<close>

theorem currentSchedule_after_cutoff_host_clock_change:
  "drawDay 20538
   \<and> scheduleOfDay fixedBRT jerusalemSpring2026 20538
       = \<lparr>sched_drawDate = 1774494000000, drawHour = 20, cutoff = 1774565999000,
          regStart = 1774479601000\<rparr>
   \<and> thursdayEvening = cutoff (scheduleOfDay fixedBRT jerusalemSpring2026 20538) + 1000
   \<and> setDate jerusalemSpring2026 1774494000000 (getDate jerusalemSpring2026 1774494000000 + 1)
       = 1774494000000 + 23 * msPerHour
   \<and> getCurrentDrawSchedule fixedBRT jerusalemSpring2026 thursdayEvening
       = Inr (withNow (scheduleOfDay fixedBRT jerusalemSpring2026 20538) thursdayEvening)
   \<and> find drawDay [20538 + 1 .. 20538 + 14] = Some 20539
   \<and> getCurrentDrawSchedule fixedBRT (fixedHost (2 * msPerHour)) thursdayEvening
       = Inr (withNow (planOfDay 20539) thursdayEvening)"
  by code_simp

section \<open>The entry matcher\<close>

lemma matchNumbers_fold:
  "fold (\<lambda>num r. if num \<in> set winning
                  then \<lparr>match_count = match_count r + 1,
                        matchedNumbers = matchedNumbers r @ [num]\<rparr>
                  else r) chosen acc
   = \<lparr>match_count = match_count acc + length (filter (\<lambda>n. n \<in> set winning) chosen),
      matchedNumbers = matchedNumbers acc @ filter (\<lambda>n. n \<in> set winning) chosen\<rparr>"
  by (induction chosen arbitrary: acc) auto

lemma matchNumbers_filter:
  "matchNumbers chosen winning =
     \<lparr>match_count = length (filter (\<lambda>n. n \<in> set winning) chosen),
      matchedNumbers = filter (\<lambda>n. n \<in> set winning) chosen\<rparr>"
  unfolding matchNumbers_def by (simp add: matchNumbers_fold)

text \<open>
  C9. \<open>matchNumbers\<close> returns the number of elements of \<open>chosen\<close> that occur in
  \<open>winning\<close>, together with those elements in the order they have in \<open>chosen\<close>; on
  \<open>[10,20,30,40,50]\<close> against \<open>[10,20,99,98,97]\<close> it returns count 2 and \<open>[10,20]\<close>.
\<close>

theorem matchNumbers_present_in_order:
  "match_count (matchNumbers chosen winning) = length (filter (\<lambda>n. n \<in> set winning) chosen)
   \<and> matchedNumbers (matchNumbers chosen winning) = filter (\<lambda>n. n \<in> set winning) chosen
   \<and> matchNumbers [10, 20, 30, 40, 50] [10, 20, 99, 98, 97]
       = \<lparr>match_count = 2, matchedNumbers = [10, 20]\<rparr>"
  by (simp add: matchNumbers_filter)

lemma count_list_filter: "count_list (filter P xs) x = (if P x then count_list xs x else 0)"
  by (induction xs) auto

lemma count_list_le_length_filter: "P x \<Longrightarrow> count_list xs x \<le> length (filter P xs)"
  by (induction xs) auto

text \<open>
  C10. Neither \<open>matchNumbers\<close> nor \<open>validateEntry\<close> asks the chosen numbers to be
  distinct: a value of the winning numbers is counted, and listed among the matched
  numbers, once for each time it occurs among the chosen numbers. An entry that chose the
  same winning number five times is reported with five matches and the top prize tier,
  of priority 1.
\<close>

theorem repeated_numbers_counted:
  assumes "x \<in> set winning"
  shows "count_list (matchedNumbers (matchNumbers chosen winning)) x = count_list chosen x
     \<and> count_list chosen x \<le> match_count (matchNumbers chosen winning)
     \<and> (validityGate toUpperCase e = None \<and> statusGate toUpperCase e = None
          \<and> getContestResult contestResults (contest e) (drawDate e) = Stored r
          \<and> winningNumbers r = winning \<and> chosenNumbers e = [x, x, x, x, x]
        \<longrightarrow> validateEntry toUpperCase contestResults e
              = Inr (Validated 5 [x, x, x, x, x] (getPrizeTier 5) (Some winning))
            \<and> priority (getPrizeTier 5) = 1)"
  using assms
  by (auto simp: matchNumbers_filter count_list_filter count_list_le_length_filter
        validateEntry_def winnerCheck_def getPrizeTier_def Let_def)

theorem repeated_numbers_counted_witness:
  "(7::int) \<in> set [7, 12, 25, 33, 48]
   \<and> count_list (matchedNumbers (matchNumbers [7, 7, 7, 7, 7] [7, 12, 25, 33, 48])) 7
       = count_list [7, 7, 7, 7, 7] (7::int)
   \<and> validityGate toUpperCaseAscii entrySevens = None
   \<and> statusGate toUpperCaseAscii entrySevens = None
   \<and> validateEntry toUpperCaseAscii sampleResults entrySevens
       = Inr (Validated 5 [7, 7, 7, 7, 7] (getPrizeTier 5) (Some [7, 12, 25, 33, 48]))
   \<and> priority (getPrizeTier 5) = 1"
proof -
  let ?r = "\<lparr>res_contest = ascii ''6903'', res_drawDate = ascii ''15/12/2025'',
             winningNumbers = [7, 12, 25, 33, 48]\<rparr>"
  have m: "(7::int) \<in> set [7, 12, 25, 33, 48]" by simp
  have g: "validityGate toUpperCaseAscii entrySevens = None"
    "statusGate toUpperCaseAscii entrySevens = None"
    by (simp_all add: validateEntry_def validityGate_def statusGate_def winnerCheck_def getContestResult_def resultKey_def setResults_def matchNumbers_def getPrizeTier_def objectPrototypeKeys_def Let_def ascii_def trim_def isWhiteSpace_def toUpperCaseAscii_def truthy_def orElse_def str_INVALIDO_def blockedPendingStatuses_def allowedValidStatuses_def entrySevens_def sampleEntry_def)
  have p: "getContestResult sampleResults (contest entrySevens) (drawDate entrySevens) = Stored ?r"
    "winningNumbers ?r = [7, 12, 25, 33, 48]" "chosenNumbers entrySevens = [7, 7, 7, 7, 7]"
    by (simp_all add: validateEntry_def validityGate_def statusGate_def winnerCheck_def getContestResult_def resultKey_def setResults_def matchNumbers_def getPrizeTier_def objectPrototypeKeys_def Let_def ascii_def trim_def isWhiteSpace_def toUpperCaseAscii_def truthy_def orElse_def str_INVALIDO_def blockedPendingStatuses_def allowedValidStatuses_def entrySevens_def sampleEntry_def sampleResults_def)
  note t = repeated_numbers_counted [OF m, of "[7, 7, 7, 7, 7]" toUpperCaseAscii entrySevens
      sampleResults ?r]
  from t have c: "count_list (matchedNumbers (matchNumbers [7, 7, 7, 7, 7] [7, 12, 25, 33, 48])) 7
       = count_list [7, 7, 7, 7, 7] (7::int)"
    by blast
  from t g p have v: "validateEntry toUpperCaseAscii sampleResults entrySevens
       = Inr (Validated 5 [7, 7, 7, 7, 7] (getPrizeTier 5) (Some [7, 12, 25, 33, 48]))
     \<and> priority (getPrizeTier 5) = 1"
    by blast
  from m c g v show ?thesis by blast
qed

section \<open>The validation gate\<close>

text \<open>
  C5. For every entry whose validity is set to a value that is not empty: if the value,
  trimmed and in upper case, is INVALID, \<open>validateEntry\<close> returns validated=false with
  the gate RECHARGE_INVALID, and with the invalidReasonCode in the message when there is
  one, whatever the status; if it is neither INVALID nor VALID, it returns
  validated=false with the gate VALIDITY_UNKNOWN; in both cases the status is not
  consulted; and only the value VALID gets past the check of the validity.
\<close>

theorem validity_gate_rejects_before_status:
  assumes "truthy (validity e)"
  shows "(let v = toUpperCase (trim (the (validity e)));
              r = validateEntry toUpperCase contestResults e
          in (v = ascii ''INVALID'' \<longrightarrow>
                r = Inr (Rejected
                      (if truthy (invalidReasonCode e)
                       then ascii ''Recharge validation failed: '' @ the (invalidReasonCode e)
                       else ascii ''Ticket failed recharge validation. Winner check not allowed.'')
                      RECHARGE_INVALID v))
           \<and> (v \<noteq> ascii ''INVALID'' \<and> v \<noteq> ascii ''VALID'' \<longrightarrow>
                r = Inr (Rejected (ascii ''Ticket validity unknown. Winner check not allowed.'')
                      VALIDITY_UNKNOWN v))
           \<and> (v \<noteq> ascii ''VALID'' \<longrightarrow>
                (\<forall>s c. validateEntry toUpperCase contestResults (e\<lparr>status := s, csvStatus := c\<rparr>) = r))
           \<and> ((\<forall>x. r = Inr x \<longrightarrow>
                  gate_of x \<noteq> Some RECHARGE_INVALID \<and> gate_of x \<noteq> Some VALIDITY_UNKNOWN)
                \<longrightarrow> v = ascii ''VALID''))"
  using assms
  by (auto simp: validateEntry_def validityGate_def Let_def)

theorem validity_gate_rejects_before_status_witness:
  "truthy (validity entryRechargeFailed)
   \<and> status entryRechargeFailed = Some (ascii ''VALID'')
   \<and> validateEntry toUpperCaseAscii sampleResults entryRechargeFailed
       = Inr (Rejected (ascii ''Recharge validation failed: NO_RECHARGE'') RECHARGE_INVALID
           (ascii ''INVALID''))"
proof -
  have h: "truthy (validity entryRechargeFailed)"
    "status entryRechargeFailed = Some (ascii ''VALID'')"
    by (simp_all add: truthy_def entryRechargeFailed_def sampleEntry_def ascii_def)
  have v: "toUpperCaseAscii (trim (the (validity entryRechargeFailed))) = ascii ''INVALID''"
    by (simp add: entryRechargeFailed_def sampleEntry_def ascii_def trim_def isWhiteSpace_def toUpperCaseAscii_def truthy_def orElse_def str_INVALIDO_def blockedPendingStatuses_def allowedValidStatuses_def)
  have m: "(if truthy (invalidReasonCode entryRechargeFailed)
            then ascii ''Recharge validation failed: '' @ the (invalidReasonCode entryRechargeFailed)
            else ascii ''Ticket failed recharge validation. Winner check not allowed.'')
           = ascii ''Recharge validation failed: NO_RECHARGE''"
    by (simp add: entryRechargeFailed_def sampleEntry_def ascii_def trim_def isWhiteSpace_def toUpperCaseAscii_def truthy_def orElse_def str_INVALIDO_def blockedPendingStatuses_def allowedValidStatuses_def)
  from validity_gate_rejects_before_status [OF h(1), of toUpperCaseAscii sampleResults]
  have "validateEntry toUpperCaseAscii sampleResults entryRechargeFailed
        = Inr (Rejected (ascii ''Recharge validation failed: NO_RECHARGE'') RECHARGE_INVALID
            (ascii ''INVALID''))"
    unfolding Let_def v m by blast
  with h show ?thesis by blast
qed

text \<open>
  A validity that is present but empty is passed over, and the entry is validated on
  its status. And an entry whose validity is VALID passes the check of the validity and
  has three of the winning numbers of its contest, but is rejected on its status PENDING:
  after a validity of VALID the status is checked before the winning numbers are looked up.
\<close>

theorem validity_path_counterexample:
  "validity entryEmptyValidity = Some []
   \<and> validateEntry toUpperCaseAscii sampleResults entryEmptyValidity
       = Inr (Validated 3 [7, 12, 25] (getPrizeTier 3) (Some [7, 12, 25, 33, 48]))
   \<and> validityGate toUpperCaseAscii entryRechargedPending = None
   \<and> winnerCheck sampleResults entryRechargedPending
       = Inr (Validated 3 [7, 12, 25] (getPrizeTier 3) (Some [7, 12, 25, 33, 48]))
   \<and> validateEntry toUpperCaseAscii sampleResults entryRechargedPending
       = Inr (Rejected (ascii ''Ticket is not validated. Winner check is not allowed.'')
           STATUS_NOT_VALIDATED (ascii ''PENDING''))"
  by (simp add: validateEntry_def validityGate_def statusGate_def winnerCheck_def getContestResult_def resultKey_def setResults_def matchNumbers_def getPrizeTier_def objectPrototypeKeys_def Let_def ascii_def trim_def isWhiteSpace_def toUpperCaseAscii_def truthy_def orElse_def str_INVALIDO_def blockedPendingStatuses_def allowedValidStatuses_def entryEmptyValidity_def entryRechargedPending_def
        sampleEntry_def sampleResults_def)

text \<open>
  C6. For every entry whose validity is not set, \<open>validateEntry\<close> looks at the status
  (the \<open>status\<close> field, or \<open>csvStatus\<close> when that is missing or empty), trimmed and in
  upper case: INVALID and its Portuguese spelling are rejected with the gate
  STATUS_INVALID; every other status that is not empty and not one of VALID, VALIDATED
  and VALIDADO, the pending markers among them, is rejected with the gate
  STATUS_NOT_VALIDATED; an empty or missing status, like an accepted one, goes on to the
  lookup of the winning numbers.
\<close>

theorem status_gate_without_validity:
  assumes "\<not> truthy (validity e)"
  shows "(let st = toUpperCase (trim (orElse (status e) (orElse (csvStatus e) [])));
              r = validateEntry toUpperCase contestResults e
          in (st = ascii ''INVALID'' \<or> st = str_INVALIDO \<longrightarrow>
                r = Inr (Rejected
                      (if truthy (invalidReasonCode e)
                       then ascii ''Ticket rejected: '' @ the (invalidReasonCode e)
                       else ascii ''Ticket status is INVALID. Winner check is not allowed.'')
                      STATUS_INVALID st))
           \<and> (st \<noteq> ascii ''INVALID'' \<and> st \<noteq> str_INVALIDO \<and> st \<noteq> []
                \<and> st \<notin> set allowedValidStatuses \<longrightarrow>
                r = Inr (Rejected (ascii ''Ticket is not validated. Winner check is not allowed.'')
                      STATUS_NOT_VALIDATED st))
           \<and> (st = [] \<or> st \<in> set allowedValidStatuses \<longrightarrow> r = winnerCheck contestResults e))"
proof -
  have a: "ascii ''INVALID'' \<notin> set allowedValidStatuses" "str_INVALIDO \<notin> set allowedValidStatuses"
    "ascii ''INVALID'' \<noteq> []" "str_INVALIDO \<noteq> []"
    by (simp_all add: allowedValidStatuses_def ascii_def str_INVALIDO_def)
  have b: "s \<in> set blockedPendingStatuses \<Longrightarrow> s \<noteq> [] \<and> s \<notin> set allowedValidStatuses" for s
    by (auto simp: allowedValidStatuses_def blockedPendingStatuses_def ascii_def)
  show ?thesis
    using assms a b
    unfolding validateEntry_def validityGate_def statusGate_def Let_def
    by auto
qed

theorem status_gate_without_validity_witness:
  "\<not> truthy (validity entryPending)
   \<and> validateEntry toUpperCaseAscii sampleResults entryPending
       = Inr (Rejected (ascii ''Ticket is not validated. Winner check is not allowed.'')
           STATUS_NOT_VALIDATED (ascii ''PENDING''))"
proof -
  have h: "\<not> truthy (validity entryPending)"
    by (simp add: truthy_def entryPending_def sampleEntry_def)
  have st: "toUpperCaseAscii (trim (orElse (status entryPending) (orElse (csvStatus entryPending) [])))
            = ascii ''PENDING''"
    by (simp add: ascii_def trim_def isWhiteSpace_def toUpperCaseAscii_def truthy_def orElse_def str_INVALIDO_def blockedPendingStatuses_def allowedValidStatuses_def entryPending_def sampleEntry_def)
  have ne: "ascii ''PENDING'' \<noteq> ascii ''INVALID''" "ascii ''PENDING'' \<noteq> str_INVALIDO"
    "ascii ''PENDING'' \<noteq> []" "ascii ''PENDING'' \<notin> set allowedValidStatuses"
    by (simp_all add: ascii_def trim_def isWhiteSpace_def toUpperCaseAscii_def truthy_def orElse_def str_INVALIDO_def blockedPendingStatuses_def allowedValidStatuses_def)
  from status_gate_without_validity [OF h, of toUpperCaseAscii sampleResults] ne
  have "validateEntry toUpperCaseAscii sampleResults entryPending
        = Inr (Rejected (ascii ''Ticket is not validated. Winner check is not allowed.'')
            STATUS_NOT_VALIDATED (ascii ''PENDING''))"
    unfolding Let_def st by blast
  with h show ?thesis by blast
qed

text \<open>
  An entry with no validity and no status is not rejected: it is validated with its
  three matches.
\<close>

theorem missing_status_counterexample:
  "validity entryNoStatus = None \<and> status entryNoStatus = None \<and> csvStatus entryNoStatus = None
   \<and> validateEntry toUpperCaseAscii sampleResults entryNoStatus
       = Inr (Validated 3 [7, 12, 25] (getPrizeTier 3) (Some [7, 12, 25, 33, 48]))"
  by (simp add: validateEntry_def validityGate_def statusGate_def winnerCheck_def getContestResult_def resultKey_def setResults_def matchNumbers_def getPrizeTier_def objectPrototypeKeys_def Let_def ascii_def trim_def isWhiteSpace_def toUpperCaseAscii_def truthy_def orElse_def str_INVALIDO_def blockedPendingStatuses_def allowedValidStatuses_def entryNoStatus_def sampleEntry_def sampleResults_def)

text \<open>
  What the source does after a validity of VALID: the status is checked next, and the
  winning numbers are looked up only when the status does not reject the entry.
\<close>

lemma validity_VALID_goes_on_to_status:
  assumes "truthy (validity e)" and "toUpperCase (trim (the (validity e))) = ascii ''VALID''"
  shows "validateEntry toUpperCase contestResults e
         = (case statusGate toUpperCase e of
              Some r \<Rightarrow> Inr r
            | None \<Rightarrow> winnerCheck contestResults e)"
  using assms by (simp add: validateEntry_def validityGate_def Let_def ascii_def)

section \<open>The winner aggregator\<close>

subsection \<open>The order of the winners\<close>

lemma compareWinners_le: "(compareWinners a b \<le> 0) = winnerOrder a b"
  unfolding compareWinners_def winnerOrder_def by auto

lemma compareWinners_same:
  "contestAndMatches a = contestAndMatches b \<Longrightarrow> compareWinners a b = 0"
  unfolding compareWinners_def contestAndMatches_def by simp

lemma winnerOrder_total: "winnerOrder a b \<or> winnerOrder b a"
  unfolding winnerOrder_def by auto

lemma winnerOrder_trans: "winnerOrder a b \<Longrightarrow> winnerOrder b c \<Longrightarrow> winnerOrder a c"
  unfolding winnerOrder_def by auto

lemma set_insertBy: "set (insertBy cmp x xs) = insert x (set xs)"
  by (induction xs) auto

lemma mset_insertBy: "mset (insertBy cmp x xs) = add_mset x (mset xs)"
  by (induction xs) auto

lemma mset_sortBy: "mset (sortBy cmp xs) = mset xs"
  unfolding sortBy_def by (induction xs) (simp_all add: mset_insertBy)

lemma set_sortBy: "set (sortBy cmp xs) = set xs"
  using mset_sortBy [of cmp xs] by (metis set_mset_mset)

lemma sorted_insertBy:
  "sorted_wrt winnerOrder xs \<Longrightarrow> sorted_wrt winnerOrder (insertBy compareWinners x xs)"
proof (induction xs)
  case Nil
  show ?case by simp
next
  case (Cons y ys)
  show ?case
  proof (cases "compareWinners x y \<le> 0")
    case True
    then have "winnerOrder x y" by (simp add: compareWinners_le)
    then have "\<forall>z \<in> set (y # ys). winnerOrder x z"
      using Cons.prems winnerOrder_trans by auto
    then show ?thesis using True Cons.prems by simp
  next
    case False
    then have "winnerOrder y x" using winnerOrder_total [of x y] by (simp add: compareWinners_le)
    then show ?thesis
      using False Cons by (auto simp: set_insertBy)
  qed
qed

lemma sorted_sortBy: "sorted_wrt winnerOrder (sortBy compareWinners xs)"
  unfolding sortBy_def by (induction xs) (simp_all add: sorted_insertBy)

text \<open>
  The sort is stable: the winners with one contest and one match count are, after the
  sort, in the order they had before it.
\<close>

lemma filter_insertBy:
  "filter (\<lambda>w. contestAndMatches w = c) (insertBy compareWinners x xs)
   = (if contestAndMatches x = c then x # filter (\<lambda>w. contestAndMatches w = c) xs
      else filter (\<lambda>w. contestAndMatches w = c) xs)"
proof (induction xs)
  case Nil
  show ?case by simp
next
  case (Cons y ys)
  show ?case
  proof (cases "compareWinners x y \<le> 0")
    case True
    then show ?thesis by simp
  next
    case False
    then have "contestAndMatches x \<noteq> contestAndMatches y"
      using compareWinners_same [of x y] by auto
    then show ?thesis using False Cons by auto
  qed
qed

lemma stable_sortBy:
  "filter (\<lambda>w. contestAndMatches w = c) (sortBy compareWinners xs)
   = filter (\<lambda>w. contestAndMatches w = c) xs"
  unfolding sortBy_def by (induction xs) (simp_all add: filter_insertBy)

subsection \<open>When the aggregator throws\<close>

lemma winnerCheck_returns:
  "resultKey (contest e) (drawDate e) \<notin> set objectPrototypeKeys \<Longrightarrow> \<exists>v. winnerCheck cr e = Inr v"
  unfolding winnerCheck_def getContestResult_def Let_def by (auto split: option.splits)

lemma validateEntry_returns:
  "resultKey (contest e) (drawDate e) \<notin> set objectPrototypeKeys
   \<Longrightarrow> \<exists>v. validateEntry up cr e = Inr v"
  unfolding validateEntry_def using winnerCheck_returns [of e cr] by (auto split: option.splits)

lemma groupEntries_eq:
  "groupEntries up cr es g =
     (if \<forall>e \<in> set es. (\<exists>v. validateEntry up cr e = Inr v) \<and> groupKey e \<notin> set objectPrototypeKeys
      then Inr (fold (\<lambda>e g. appendGroup (groupKey e) (e, projr (validateEntry up cr e)) g) es g)
      else Inl TypeError)"
proof (induction es arbitrary: g)
  case Nil
  show ?case by simp
next
  case (Cons e es)
  show ?case
  proof (cases "validateEntry up cr e")
    case (Inl err)
    have "err = TypeError" by (cases err) simp
    with Inl show ?thesis by simp
  next
    case (Inr v)
    show ?thesis using Inr Cons.IH by (simp add: pushGroup_def)
  qed
qed

lemma grouped_eq:
  "grouped up cr es =
     (if \<forall>e \<in> set es. (\<exists>v. validateEntry up cr e = Inr v) \<and> groupKey e \<notin> set objectPrototypeKeys
      then Inr (fold (\<lambda>e g. appendGroup (groupKey e) (e, projr (validateEntry up cr e)) g) es [])
      else Inl TypeError)"
  unfolding grouped_def by (rule groupEntries_eq)

lemma getWinners_eq:
  "getWinners up cr es =
     (case grouped up cr (filter (eligible up) es) of
        Inl err \<Rightarrow> Inl err
      | Inr g \<Rightarrow> Inr (sortBy compareWinners (concat (map (\<lambda>kg. groupWinners (snd kg)) g))))"
  unfolding getWinners_def unsortedWinners_def by (simp split: sum.splits)

text \<open>
  \<open>getWinners\<close> throws exactly when an entry that passed the status filter has a group
  key that names an inherited property, or makes \<open>validateEntry\<close> throw.
\<close>

lemma getWinners_throws:
  "(getWinners up cr es = Inl TypeError)
   = (\<exists>e \<in> set es. eligible up e
        \<and> (validateEntry up cr e = Inl TypeError \<or> groupKey e \<in> set objectPrototypeKeys))"
proof -
  have "(\<exists>v. validateEntry up cr e = Inr v) = (validateEntry up cr e \<noteq> Inl TypeError)" for e
  proof (cases "validateEntry up cr e")
    case (Inl err)
    have "err = TypeError" by (cases err) simp
    with Inl show ?thesis by simp
  next
    case (Inr v)
    then show ?thesis by simp
  qed
  then show ?thesis
    unfolding getWinners_eq grouped_eq by auto
qed

lemma getWinners_returns:
  assumes "\<forall>e \<in> set es. plainKeys e"
  shows "\<exists>ws. getWinners up cr es = Inr ws"
proof -
  have "\<forall>e \<in> set (filter (eligible up) es).
          (\<exists>v. validateEntry up cr e = Inr v) \<and> groupKey e \<notin> set objectPrototypeKeys"
    using assms validateEntry_returns unfolding plainKeys_def by auto
  then show ?thesis unfolding getWinners_eq grouped_eq by simp
qed

text \<open>
  C2. When \<open>getWinners\<close> returns, the list is sorted by contest, ascending in the order
  of the strings, and among the winners of one contest by matches, descending: of two
  winners, the one of the smaller contest comes first whatever the matches, and of two of
  the same contest the one with more matches comes first. Nothing else is compared, platform
  and gameId included: the list holds the winners of the array before the sort, and those
  that have one contest and one match count are in the order in which they stood there.
  And \<open>getWinners\<close> does return when no key of an entry names an inherited property.
\<close>

theorem getWinners_sorted_by_contest_then_matches:
  "(\<forall>ws. getWinners toUpperCase contestResults entries = Inr ws \<longrightarrow>
      sorted_wrt winnerOrder ws
      \<and> (\<exists>us. unsortedWinners toUpperCase contestResults entries = Inr us
            \<and> mset ws = mset us
            \<and> (\<forall>c. filter (\<lambda>w. contestAndMatches w = c) ws
                     = filter (\<lambda>w. contestAndMatches w = c) us)))
   \<and> ((\<forall>e \<in> set entries. plainKeys e)
        \<longrightarrow> (\<exists>ws. getWinners toUpperCase contestResults entries = Inr ws))"
proof -
  have "sorted_wrt winnerOrder ws
        \<and> (\<exists>us. unsortedWinners toUpperCase contestResults entries = Inr us
              \<and> mset ws = mset us
              \<and> (\<forall>c. filter (\<lambda>w. contestAndMatches w = c) ws
                       = filter (\<lambda>w. contestAndMatches w = c) us))"
    if "getWinners toUpperCase contestResults entries = Inr ws" for ws
  proof -
    from that obtain us where us: "unsortedWinners toUpperCase contestResults entries = Inr us"
      and ws: "ws = sortBy compareWinners us"
      unfolding getWinners_def by (auto split: sum.splits)
    show ?thesis unfolding ws using us sorted_sortBy stable_sortBy mset_sortBy by simp
  qed
  then show ?thesis using getWinners_returns by blast
qed

theorem getWinners_sorted_by_contest_then_matches_witness:
  "plainKeys entryNext \<and> plainKeys sampleEntry
   \<and> (\<exists>ws. getWinners toUpperCaseAscii sampleResults [entryNext, sampleEntry] = Inr ws
          \<and> sorted_wrt winnerOrder ws
          \<and> map w_entry ws = [sampleEntry, entryNext])"
proof -
  let ?es = "[entryNext, sampleEntry]"
  have p: "plainKeys entryNext" "plainKeys sampleEntry"
    by (simp_all add: plainKeys_def groupKey_def resultKey_def objectPrototypeKeys_def ascii_def
        entryNext_def sampleEntry_def)
  then have "\<forall>e \<in> set ?es. plainKeys e" by simp
  with getWinners_sorted_by_contest_then_matches [of toUpperCaseAscii sampleResults ?es]
  obtain ws where ws: "getWinners toUpperCaseAscii sampleResults ?es = Inr ws"
    and s: "sorted_wrt winnerOrder ws"
    by blast
  have "map_sum id (map w_entry) (getWinners toUpperCaseAscii sampleResults ?es)
        = Inr [sampleEntry, entryNext]"
    by (simp add: getWinners_def unsortedWinners_def grouped_def pushGroup_def groupKey_def eligible_def groupWinners_def getWinningLevel_def sortBy_def compareWinners_def validateEntry_def validityGate_def statusGate_def winnerCheck_def getContestResult_def resultKey_def setResults_def matchNumbers_def getPrizeTier_def objectPrototypeKeys_def Let_def ascii_def trim_def isWhiteSpace_def toUpperCaseAscii_def truthy_def orElse_def str_INVALIDO_def blockedPendingStatuses_def allowedValidStatuses_def entryNext_def sampleEntry_def sampleResults_def)
  then have m: "map w_entry ws = [sampleEntry, entryNext]" unfolding ws by simp
  from ws s m have "\<exists>ws. getWinners toUpperCaseAscii sampleResults ?es = Inr ws
                      \<and> sorted_wrt winnerOrder ws \<and> map w_entry ws = [sampleEntry, entryNext]"
    by (intro exI [of _ ws]) simp
  with p show ?thesis by simp
qed

text \<open>
  A winner of contest 6903 with three matches comes before a winner of contest 6904
  with five. And two winners of one contest with three matches each come in the order of
  the entries, whichever way round their platforms and gameIds are.
\<close>

theorem matches_first_counterexample:
  "map_sum id (map w_entry) (getWinners toUpperCaseAscii sampleResults [entryNext, sampleEntry])
     = Inr [sampleEntry, entryNext]
   \<and> validatedMatches toUpperCaseAscii sampleResults sampleEntry = Some 3
   \<and> validatedMatches toUpperCaseAscii sampleResults entryNext = Some 5
   \<and> validatedMatches toUpperCaseAscii sampleResults entryLuz = Some 3
   \<and> contest entryLuz = contest sampleEntry
   \<and> map_sum id (map w_entry) (getWinners toUpperCaseAscii sampleResults [sampleEntry, entryLuz])
       = Inr [sampleEntry, entryLuz]
   \<and> map_sum id (map w_entry) (getWinners toUpperCaseAscii sampleResults [entryLuz, sampleEntry])
       = Inr [entryLuz, sampleEntry]"
  by (simp add: validatedMatches_def getWinners_def unsortedWinners_def grouped_def pushGroup_def groupKey_def eligible_def groupWinners_def getWinningLevel_def sortBy_def compareWinners_def validateEntry_def validityGate_def statusGate_def winnerCheck_def getContestResult_def resultKey_def setResults_def matchNumbers_def getPrizeTier_def objectPrototypeKeys_def Let_def ascii_def trim_def isWhiteSpace_def toUpperCaseAscii_def truthy_def orElse_def str_INVALIDO_def blockedPendingStatuses_def allowedValidStatuses_def entryNext_def entryLuz_def sampleEntry_def
        sampleResults_def)

subsection \<open>The groups\<close>

lemma appendGroup_keys: "fst ` set (appendGroup k x g) = insert k (fst ` set g)"
proof (induction g)
  case Nil
  show ?case by simp
next
  case (Cons a g)
  obtain k0 xs0 where a: "a = (k0, xs0)" by (cases a)
  show ?case
  proof (cases "k = k0")
    case True
    then show ?thesis unfolding a by simp
  next
    case False
    then have "fst ` set (appendGroup k x (a # g)) = insert k0 (fst ` set (appendGroup k x g))"
      unfolding a by simp
    also have "\<dots> = insert k0 (insert k (fst ` set g))" unfolding Cons.IH ..
    also have "\<dots> = insert k (fst ` set (a # g))" unfolding a by (simp add: insert_commute)
    finally show ?thesis .
  qed
qed

lemma appendGroup_distinct: "distinct (map fst g) \<Longrightarrow> distinct (map fst (appendGroup k x g))"
proof (induction g)
  case Nil
  show ?case by simp
next
  case (Cons a g)
  obtain k' xs where a: "a = (k', xs)" by (cases a)
  show ?case
  proof (cases "k = k'")
    case True
    then show ?thesis using Cons.prems unfolding a by simp
  next
    case False
    have "k' \<notin> fst ` set g" using Cons.prems unfolding a by (simp add: image_iff)
    then have "k' \<notin> fst ` set (appendGroup k x g)" using False unfolding appendGroup_keys by simp
    then show ?thesis using False Cons unfolding a by simp
  qed
qed

lemma appendGroup_mset:
  "mset (concat (map snd (appendGroup k x g))) = add_mset x (mset (concat (map snd g)))"
  by (induction g) auto

lemma appendGroup_member:
  assumes "distinct (map fst g)" "(k', ys) \<in> set (appendGroup k x g)"
  shows "(k' \<noteq> k \<and> (k', ys) \<in> set g)
       \<or> (k' = k \<and> (\<exists>zs. (k, zs) \<in> set g \<and> ys = zs @ [x]))
       \<or> (k' = k \<and> k \<notin> fst ` set g \<and> ys = [x])"
  using assms
proof (induction g)
  case Nil
  then show ?case by simp
next
  case (Cons a g)
  obtain k0 xs0 where a: "a = (k0, xs0)" by (cases a)
  have d: "distinct (map fst g)" and k0: "k0 \<notin> fst ` set g"
    using Cons.prems(1) unfolding a by (simp_all add: image_iff)
  show ?case
  proof (cases "k = k0")
    case True
    then have "(k', ys) = (k, xs0 @ [x]) \<or> (k', ys) \<in> set g"
      using Cons.prems(2) unfolding a by simp
    then show ?thesis
    proof
      assume "(k', ys) = (k, xs0 @ [x])"
      then show ?thesis using True unfolding a by auto
    next
      assume m: "(k', ys) \<in> set g"
      then have "k' \<in> fst ` set g" by force
      with k0 True have "k' \<noteq> k" by auto
      with m show ?thesis by simp
    qed
  next
    case False
    then have "(k', ys) = (k0, xs0) \<or> (k', ys) \<in> set (appendGroup k x g)"
      using Cons.prems(2) unfolding a by simp
    then show ?thesis
    proof
      assume "(k', ys) = (k0, xs0)"
      then show ?thesis using False unfolding a by auto
    next
      assume "(k', ys) \<in> set (appendGroup k x g)"
      from Cons.IH [OF d this] show ?thesis using False unfolding a by auto
    qed
  qed
qed

lemma fold_appendGroup_invariant:
  "distinct (map fst (fold (\<lambda>e g. appendGroup (key e) (f e) g) es []))
   \<and> fst ` set (fold (\<lambda>e g. appendGroup (key e) (f e) g) es []) = key ` set es
   \<and> mset (concat (map snd (fold (\<lambda>e g. appendGroup (key e) (f e) g) es []))) = mset (map f es)
   \<and> (\<forall>k ys. (k, ys) \<in> set (fold (\<lambda>e g. appendGroup (key e) (f e) g) es [])
        \<longrightarrow> ys = map f (filter (\<lambda>e. key e = k) es))"
proof (induction es rule: rev_induct)
  case Nil
  show ?case by simp
next
  case (snoc e es)
  let ?g = "fold (\<lambda>e g. appendGroup (key e) (f e) g) es []"
  have d: "distinct (map fst ?g)" and ks: "fst ` set ?g = key ` set es"
    and ms: "mset (concat (map snd ?g)) = mset (map f es)"
    and gr: "\<And>k ys. (k, ys) \<in> set ?g \<Longrightarrow> ys = map f (filter (\<lambda>e. key e = k) es)"
    using snoc by auto
  have step: "fold (\<lambda>e g. appendGroup (key e) (f e) g) (es @ [e]) [] = appendGroup (key e) (f e) ?g"
    by simp
  have "ys = map f (filter (\<lambda>x. key x = k) (es @ [e]))"
    if m: "(k, ys) \<in> set (appendGroup (key e) (f e) ?g)" for k ys
  proof -
    from appendGroup_member [OF d m]
    consider "k \<noteq> key e" "(k, ys) \<in> set ?g"
      | zs where "k = key e" "(key e, zs) \<in> set ?g" "ys = zs @ [f e]"
      | "k = key e" "key e \<notin> fst ` set ?g" "ys = [f e]"
      by blast
    then show ?thesis
    proof cases
      case 1
      then show ?thesis using gr [of k ys] by auto
    next
      case 2
      then show ?thesis using gr [of "key e" zs] by auto
    next
      case 3
      then have "key e \<notin> key ` set es" unfolding ks by simp
      then have "\<forall>x \<in> set es. key x \<noteq> key e"
        by (auto simp: image_iff)
      then have "filter (\<lambda>x. key x = key e) es = []"
        by (simp add: filter_empty_conv)
      with 3 show ?thesis by simp
    qed
  qed
  then show ?case
    unfolding step
    using appendGroup_distinct [OF d] appendGroup_keys [of "key e" "f e" ?g] ks
      appendGroup_mset [of "key e" "f e" ?g] ms
    by auto
qed

lemma getWinningLevel_fold:
  "a \<le> fold (\<lambda>e highest. if validated (snd e) then max highest (matches (snd e)) else highest) xs a
   \<and> (\<forall>x \<in> set xs. validated (snd x) \<longrightarrow> matches (snd x)
          \<le> fold (\<lambda>e highest. if validated (snd e) then max highest (matches (snd e)) else highest) xs a)
   \<and> (fold (\<lambda>e highest. if validated (snd e) then max highest (matches (snd e)) else highest) xs a = a
        \<or> (\<exists>x \<in> set xs. validated (snd x) \<and> matches (snd x)
             = fold (\<lambda>e highest. if validated (snd e) then max highest (matches (snd e)) else highest) xs a))"
proof (induction xs arbitrary: a)
  case Nil
  show ?case by simp
next
  case (Cons x xs)
  let ?step = "\<lambda>e highest. if validated (snd e) then max highest (matches (snd e)) else highest"
  let ?a' = "?step x a"
  note ih = Cons.IH [of ?a']
  have e: "fold ?step (x # xs) a = fold ?step xs ?a'" by simp
  have a': "a \<le> ?a'" "validated (snd x) \<Longrightarrow> matches (snd x) \<le> ?a'"
    "?a' = a \<or> (validated (snd x) \<and> matches (snd x) = ?a')"
    by (auto simp: max_def)
  let ?r = "fold ?step xs ?a'"
  from ih have r1: "?a' \<le> ?r"
    and r2: "\<forall>y \<in> set xs. validated (snd y) \<longrightarrow> matches (snd y) \<le> ?r"
    and r3: "?r = ?a' \<or> (\<exists>y \<in> set xs. validated (snd y) \<and> matches (snd y) = ?r)"
    by blast+
  have c1: "a \<le> ?r" using a'(1) r1 by (rule le_trans)
  have c2: "\<forall>y \<in> set (x # xs). validated (snd y) \<longrightarrow> matches (snd y) \<le> ?r"
    using a'(2) r1 r2 by (auto intro: le_trans)
  have c3: "?r = a \<or> (\<exists>y \<in> set (x # xs). validated (snd y) \<and> matches (snd y) = ?r)"
    using a'(3) r3 by auto
  show ?case unfolding e using c1 c2 c3 by blast
qed

lemma getWinningLevel_upper:
  "x \<in> set xs \<Longrightarrow> validated (snd x) \<Longrightarrow> matches (snd x) \<le> getWinningLevel xs"
  unfolding getWinningLevel_def using getWinningLevel_fold [of 0 xs] by blast

lemma getWinningLevel_attained:
  "getWinningLevel xs = 0 \<or> (\<exists>x \<in> set xs. validated (snd x) \<and> matches (snd x) = getWinningLevel xs)"
  unfolding getWinningLevel_def using getWinningLevel_fold [of 0 xs] by blast

lemma sameGroup_groupKey: "sameGroup a b \<Longrightarrow> groupKey a = groupKey b"
  unfolding sameGroup_def groupKey_def by simp

lemma split_at_first:
  "x \<notin> set xs \<Longrightarrow> x \<notin> set xs' \<Longrightarrow> xs @ x # ys = xs' @ x # ys' \<Longrightarrow> xs = xs' \<and> ys = ys'"
proof (induction xs arbitrary: xs')
  case Nil
  then show ?case by (cases xs') auto
next
  case (Cons a xs)
  then show ?case by (cases xs') auto
qed

lemma groupKey_sameGroup:
  assumes "separatorFree a" "separatorFree b" "groupKey a = groupKey b"
  shows "sameGroup a b"
proof -
  have u: "ascii ''_'' = [95]" by (simp add: ascii_def)
  from assms(3) have e: "platform a @ 95 # (contest a @ 95 # drawDate a)
                       = platform b @ 95 # (contest b @ 95 # drawDate b)"
    unfolding groupKey_def u by simp
  have pa: "95 \<notin> set (platform a)" "95 \<notin> set (contest a)"
    using assms(1) unfolding separatorFree_def by simp_all
  have pb: "95 \<notin> set (platform b)" "95 \<notin> set (contest b)"
    using assms(2) unfolding separatorFree_def by simp_all
  from split_at_first [OF pa(1) pb(1) e] have p: "platform a = platform b"
    and r: "contest a @ 95 # drawDate a = contest b @ 95 # drawDate b"
    by simp_all
  from split_at_first [OF pa(2) pb(2) r] p show ?thesis unfolding sameGroup_def by simp
qed

text \<open>
  When the grouping loop returns, it has validated every entry it was given, each group
  holds the entries of its key in their order, with their validations, and every entry is
  in a group.
\<close>

lemma grouped_validated:
  assumes "grouped up cr E = Inr G" "e \<in> set E"
  shows "validateEntry up cr e = Inr (projr (validateEntry up cr e))"
proof -
  from assms(1) have "\<forall>e \<in> set E. \<exists>v. validateEntry up cr e = Inr v"
    unfolding grouped_eq by (auto split: if_splits)
  with assms(2) show ?thesis by auto
qed

lemma grouped_fold:
  assumes "grouped up cr E = Inr G"
  shows "G = fold (\<lambda>e g. appendGroup (groupKey e) (e, projr (validateEntry up cr e)) g) E []"
  using assms unfolding grouped_eq by (auto split: if_splits)

lemma grouped_groups:
  assumes "grouped up cr E = Inr G" "(k, ys) \<in> set G"
  shows "ys = map (\<lambda>e. (e, projr (validateEntry up cr e))) (filter (\<lambda>e. groupKey e = k) E)"
  using assms(2)
    fold_appendGroup_invariant [of groupKey "\<lambda>e. (e, projr (validateEntry up cr e))" E]
  unfolding grouped_fold [OF assms(1)] by blast

lemma grouped_all:
  assumes "grouped up cr E = Inr G"
  shows "mset (concat (map snd G)) = mset (map (\<lambda>e. (e, projr (validateEntry up cr e))) E)"
  using fold_appendGroup_invariant [of groupKey "\<lambda>e. (e, projr (validateEntry up cr e))" E]
  unfolding grouped_fold [OF assms] by blast

lemma groupTop_iff:
  assumes v: "\<forall>x \<in> set es. eligible up x \<longrightarrow> validateEntry up cr x = Inr (V x)"
    and e: "e \<in> set es"
  shows "groupTop up cr es e
         = (eligible up e \<and> validated (V e) \<and> 1 \<le> matches (V e)
            \<and> (\<forall>x \<in> set es. eligible up x \<and> sameGroup x e \<and> validated (V x)
                  \<longrightarrow> matches (V x) \<le> matches (V e)))"
proof (cases "eligible up e")
  case False
  then show ?thesis unfolding groupTop_def by simp
next
  case True
  then have ve: "validateEntry up cr e = Inr (V e)" using v e by simp
  have vm: "validatedMatches up cr x = (if validated (V x) then Some (matches (V x)) else None)"
    if "x \<in> set es" "eligible up x" for x
    using v that unfolding validatedMatches_def by simp
  show ?thesis
  proof (cases "validated (V e)")
    case False
    then show ?thesis unfolding groupTop_def using vm [OF e True] by simp
  next
    case ok: True
    have "(\<forall>x \<in> set es. eligible up x \<and> sameGroup x e
             \<longrightarrow> (case validatedMatches up cr x of None \<Rightarrow> True | Some k \<Rightarrow> k \<le> matches (V e)))
          = (\<forall>x \<in> set es. eligible up x \<and> sameGroup x e \<and> validated (V x)
               \<longrightarrow> matches (V x) \<le> matches (V e))"
      using vm by (intro ball_cong refl) auto
    then show ?thesis unfolding groupTop_def using vm [OF e True] ok True by simp
  qed
qed

lemma groupWinners_entries:
  assumes sf: "\<forall>e \<in> set es. separatorFree e"
    and G: "grouped up cr (filter (eligible up) es) = Inr G"
    and g: "(k, ys) \<in> set G"
  shows "map w_entry (groupWinners ys) = filter (groupTop up cr es) (map fst ys)"
proof -
  let ?V = "\<lambda>e. projr (validateEntry up cr e)"
  let ?E = "filter (eligible up) es"
  let ?L = "getWinningLevel ys"
  have val: "\<forall>x \<in> set es. eligible up x \<longrightarrow> validateEntry up cr x = Inr (?V x)"
    using grouped_validated [OF G] by simp
  note top_iff = groupTop_iff [OF val]
  have ys: "ys = map (\<lambda>e. (e, ?V e)) (filter (\<lambda>e. groupKey e = k) ?E)"
    using G g by (rule grouped_groups)
  have mem: "x \<in> set ys \<longleftrightarrow> (fst x \<in> set es \<and> eligible up (fst x) \<and> groupKey (fst x) = k
                \<and> snd x = ?V (fst x))" for x
    unfolding ys by (cases x) auto
  have iff: "(validated (snd x) \<and> matches (snd x) = ?L \<and> ?L \<noteq> 0) = groupTop up cr es (fst x)"
    if x: "x \<in> set ys" for x
  proof -
    define e where "e = fst x"
    have e: "e \<in> set es" "eligible up e" "groupKey e = k" and sx: "snd x = ?V e"
      using x mem [of x] unfolding e_def by blast+
    have xe: "x = (e, ?V e)" using sx unfolding e_def by (simp add: prod_eq_iff)
    show ?thesis
    proof
      assume P: "validated (snd x) \<and> matches (snd x) = ?L \<and> ?L \<noteq> 0"
      have "matches (?V y) \<le> matches (?V e)"
        if "y \<in> set es" "eligible up y" "sameGroup y e" "validated (?V y)" for y
      proof -
        have "groupKey y = k" using that(3) e(3) sameGroup_groupKey by simp
        then have "(y, ?V y) \<in> set ys" using that mem [of "(y, ?V y)"] by simp
        from getWinningLevel_upper [OF this] that(4) P show ?thesis unfolding xe by simp
      qed
      then have "groupTop up cr es e"
        using P e unfolding top_iff [OF e(1)] xe by auto
      then show "groupTop up cr es (fst x)" unfolding e_def .
    next
      assume T: "groupTop up cr es (fst x)"
      then have "groupTop up cr es e" unfolding e_def .
      then have v: "validated (?V e)" and pos: "1 \<le> matches (?V e)"
        and top: "\<And>y. y \<in> set es \<Longrightarrow> eligible up y \<Longrightarrow> sameGroup y e \<Longrightarrow> validated (?V y)
                   \<Longrightarrow> matches (?V y) \<le> matches (?V e)"
        unfolding top_iff [OF e(1)] by auto
      have up: "matches (?V e) \<le> ?L"
        using getWinningLevel_upper [OF x] v unfolding xe by simp
      then have nz: "?L \<noteq> 0" using pos by simp
      with getWinningLevel_attained [of ys]
      obtain z where z: "z \<in> set ys" "validated (snd z)" "matches (snd z) = ?L" by auto
      then have z': "fst z \<in> set es" "eligible up (fst z)" "groupKey (fst z) = k" "snd z = ?V (fst z)"
        using mem [of z] by simp_all
      have "sameGroup (fst z) e"
        using sf z'(1,3) e(1,3) by (intro groupKey_sameGroup) auto
      from top [OF z'(1,2) this] z(2,3) z'(4) have "?L \<le> matches (?V e)" by simp
      with up nz v show "validated (snd x) \<and> matches (snd x) = ?L \<and> ?L \<noteq> 0"
        unfolding xe by simp
    qed
  qed
  show ?thesis
  proof (cases "?L = 0")
    case True
    then have "\<forall>x \<in> set ys. \<not> groupTop up cr es (fst x)" using iff by blast
    then have "filter (groupTop up cr es) (map fst ys) = []"
      by (auto simp: filter_empty_conv)
    then show ?thesis using True unfolding groupWinners_def Let_def by simp
  next
    case False
    have "filter (\<lambda>e. validated (snd e) \<and> matches (snd e) = ?L) ys
          = filter (\<lambda>x. groupTop up cr es (fst x)) ys"
      by (rule filter_cong [OF refl]) (use iff False in auto)
    then show ?thesis
      using False unfolding groupWinners_def Let_def by (simp add: filter_map comp_def)
  qed
qed

lemma unsortedWinners_entries:
  assumes sf: "\<forall>e \<in> set es. separatorFree e"
    and G: "grouped up cr (filter (eligible up) es) = Inr G"
  shows "map w_entry (concat (map (\<lambda>kg. groupWinners (snd kg)) G))
         = filter (groupTop up cr es) (map fst (concat (map snd G)))"
proof -
  have "map (map w_entry) (map (\<lambda>kg. groupWinners (snd kg)) G)
        = map (filter (groupTop up cr es)) (map (map fst) (map snd G))"
    unfolding map_map comp_def
  proof (rule map_cong [OF refl])
    fix kg assume "kg \<in> set G"
    then have "(fst kg, snd kg) \<in> set G" by simp
    then show "map w_entry (groupWinners (snd kg)) = filter (groupTop up cr es) (map fst (snd kg))"
      by (rule groupWinners_entries [OF sf G])
  qed
  then show ?thesis
    unfolding map_concat filter_concat by (rule arg_cong)
qed

lemma getWinners_entries:
  assumes sf: "\<forall>e \<in> set es. separatorFree e"
    and W: "getWinners up cr es = Inr ws"
  shows "mset (map w_entry ws) = mset (filter (groupTop up cr es) es)"
proof -
  let ?E = "filter (eligible up) es"
  from W obtain G where G: "grouped up cr ?E = Inr G"
    and ws: "ws = sortBy compareWinners (concat (map (\<lambda>kg. groupWinners (snd kg)) G))"
    unfolding getWinners_eq by (auto split: sum.splits)
  have "mset (map w_entry ws)
        = mset (map w_entry (concat (map (\<lambda>kg. groupWinners (snd kg)) G)))"
    unfolding ws by (simp add: mset_sortBy)
  also have "\<dots> = filter_mset (groupTop up cr es) (image_mset fst (mset (concat (map snd G))))"
    unfolding unsortedWinners_entries [OF sf G] by simp
  also have "\<dots> = filter_mset (groupTop up cr es) (mset ?E)"
    unfolding grouped_all [OF G] by (simp add: image_mset.compositionality comp_def)
  also have "\<dots> = mset (filter (groupTop up cr es) ?E)"
    by (simp only: mset_filter)
  also have "filter (groupTop up cr es) ?E = filter (groupTop up cr es) es"
    unfolding filter_filter by (rule filter_cong [OF refl]) (auto simp: groupTop_def)
  finally show ?thesis .
qed

lemma getWinners_validation:
  assumes W: "getWinners up cr es = Inr ws" and w: "w \<in> set ws"
  shows "validateEntry up cr (w_entry w) = Inr (w_validation w)
         \<and> winningLevel w = matches (w_validation w) \<and> 1 \<le> winningLevel w"
proof -
  let ?E = "filter (eligible up) es"
  from W obtain G where G: "grouped up cr ?E = Inr G"
    and ws: "ws = sortBy compareWinners (concat (map (\<lambda>kg. groupWinners (snd kg)) G))"
    unfolding getWinners_eq by (auto split: sum.splits)
  from w have "w \<in> set (concat (map (\<lambda>kg. groupWinners (snd kg)) G))"
    unfolding ws set_sortBy .
  then obtain kg where kg: "kg \<in> set G" "w \<in> set (groupWinners (snd kg))"
    by auto
  then have m: "(fst kg, snd kg) \<in> set G" by simp
  from grouped_groups [OF G m]
  have ys: "\<forall>x \<in> set (snd kg). fst x \<in> set ?E \<and> snd x = projr (validateEntry up cr (fst x))"
    by auto
  from kg(2) obtain x where x: "x \<in> set (snd kg)" "matches (snd x) = getWinningLevel (snd kg)"
    "getWinningLevel (snd kg) \<noteq> 0"
    "w = \<lparr>w_entry = fst x, w_validation = snd x, winningLevel = getWinningLevel (snd kg)\<rparr>"
    unfolding groupWinners_def Let_def by (auto split: if_splits)
  from ys x(1) have "fst x \<in> set ?E" "snd x = projr (validateEntry up cr (fst x))" by auto
  with grouped_validated [OF G, of "fst x"] x show ?thesis by auto
qed

lemma groupTop_platform:
  assumes "platform e = p"
  shows "groupTop up cr (filter (\<lambda>x. platform x = p) es) e = groupTop up cr es e"
  using assms unfolding groupTop_def sameGroup_def by (auto split: option.splits)

text \<open>
  C1. For every collection of entries whose platforms and contests hold no underscore
  and whose keys name no inherited property, \<open>getWinners\<close> returns, and the entries it
  returns are, with their multiplicities, exactly the entries that passed the status
  filter, are validated, and whose match count is the largest among the entries of their
  group (platform, contest, draw date) that passed the status filter and are validated,
  provided that count is at least 1; a group whose largest count is 0 returns nothing.
  Every winner carries its validation and the winning level of its group. So an entry
  with three matches is not returned when its group has one with four that passed the
  filter, and the winners of a platform are those \<open>getWinners\<close> returns for the entries
  of that platform alone.
\<close>

theorem getWinners_top_of_each_group:
  assumes sf: "\<forall>e \<in> set es. separatorFree e \<and> plainKeys e"
  shows "\<exists>ws. getWinners toUpperCase contestResults es = Inr ws
       \<and> mset (map w_entry ws) = mset (filter (groupTop toUpperCase contestResults es) es)
       \<and> (\<forall>w \<in> set ws.
             validateEntry toUpperCase contestResults (w_entry w) = Inr (w_validation w)
             \<and> winningLevel w = matches (w_validation w))
       \<and> (\<forall>p. \<exists>ps. getWinners toUpperCase contestResults (filter (\<lambda>e. platform e = p) es)
                     = Inr ps
                \<and> mset (filter (\<lambda>e. platform e = p) (map w_entry ws)) = mset (map w_entry ps))"
proof -
  let ?W = "getWinners toUpperCase contestResults"
  let ?T = "groupTop toUpperCase contestResults"
  have s: "\<forall>e \<in> set es. separatorFree e" and k: "\<forall>e \<in> set es. plainKeys e"
    using sf by simp_all
  from getWinners_returns [OF k] obtain ws where ws: "?W es = Inr ws" by blast
  have one: "mset (map w_entry ws) = mset (filter (?T es) es)"
    by (rule getWinners_entries [OF s ws])
  have two: "\<forall>w \<in> set ws. validateEntry toUpperCase contestResults (w_entry w) = Inr (w_validation w)
               \<and> winningLevel w = matches (w_validation w)"
    using getWinners_validation [OF ws] by blast
  have three: "\<exists>ps. ?W (filter (\<lambda>e. platform e = p) es) = Inr ps
                 \<and> mset (filter (\<lambda>e. platform e = p) (map w_entry ws)) = mset (map w_entry ps)"
    for p
  proof -
    let ?es = "filter (\<lambda>e. platform e = p) es"
    have s': "\<forall>e \<in> set ?es. separatorFree e" and k': "\<forall>e \<in> set ?es. plainKeys e"
      using s k by simp_all
    from getWinners_returns [OF k'] obtain ps where ps: "?W ?es = Inr ps" by blast
    have "mset (filter (\<lambda>e. platform e = p) (map w_entry ws))
          = filter_mset (\<lambda>e. platform e = p) (mset (map w_entry ws))"
      by (simp only: mset_filter)
    also have "\<dots> = mset (filter (\<lambda>e. platform e = p) (filter (?T es) es))"
      unfolding one by (simp only: mset_filter)
    also have "filter (\<lambda>e. platform e = p) (filter (?T es) es) = filter (?T ?es) ?es"
      unfolding filter_filter
      by (rule filter_cong [OF refl]) (use groupTop_platform in auto)
    also have "mset (filter (?T ?es) ?es) = mset (map w_entry ps)"
      by (rule getWinners_entries [OF s' ps, symmetric])
    finally show ?thesis using ps by blast
  qed
  from ws one two three show ?thesis by blast
qed

theorem getWinners_top_of_each_group_witness:
  "separatorFree sampleEntry \<and> separatorFree entryFour \<and> separatorFree entryLuz
   \<and> plainKeys sampleEntry \<and> plainKeys entryFour \<and> plainKeys entryLuz
   \<and> (\<exists>ws. getWinners toUpperCaseAscii sampleResults [sampleEntry, entryFour, entryLuz] = Inr ws
          \<and> mset (map w_entry ws) = mset [entryFour, entryLuz])
   \<and> validatedMatches toUpperCaseAscii sampleResults sampleEntry = Some 3
   \<and> validatedMatches toUpperCaseAscii sampleResults entryFour = Some 4
   \<and> validatedMatches toUpperCaseAscii sampleResults entryLuz = Some 3"
proof -
  let ?es = "[sampleEntry, entryFour, entryLuz]"
  have s: "separatorFree sampleEntry" "separatorFree entryFour" "separatorFree entryLuz"
    by (simp_all add: separatorFree_def ascii_def entryFour_def entryLuz_def sampleEntry_def)
  have k: "plainKeys sampleEntry" "plainKeys entryFour" "plainKeys entryLuz"
    by (simp_all add: plainKeys_def groupKey_def resultKey_def objectPrototypeKeys_def ascii_def
        entryFour_def entryLuz_def sampleEntry_def)
  from s k have sf: "\<forall>e \<in> set ?es. separatorFree e \<and> plainKeys e" by simp
  have m: "validatedMatches toUpperCaseAscii sampleResults sampleEntry = Some 3"
    "validatedMatches toUpperCaseAscii sampleResults entryFour = Some 4"
    "validatedMatches toUpperCaseAscii sampleResults entryLuz = Some 3"
    by (simp_all add: validatedMatches_def validateEntry_def validityGate_def statusGate_def winnerCheck_def getContestResult_def resultKey_def setResults_def matchNumbers_def getPrizeTier_def objectPrototypeKeys_def Let_def ascii_def trim_def isWhiteSpace_def toUpperCaseAscii_def truthy_def orElse_def str_INVALIDO_def blockedPendingStatuses_def allowedValidStatuses_def entryFour_def entryLuz_def
        sampleEntry_def sampleResults_def)
  have e: "eligible toUpperCaseAscii sampleEntry" "eligible toUpperCaseAscii entryFour"
    "eligible toUpperCaseAscii entryLuz"
    by (simp_all add: eligible_def ascii_def trim_def isWhiteSpace_def toUpperCaseAscii_def truthy_def orElse_def str_INVALIDO_def blockedPendingStatuses_def allowedValidStatuses_def entryFour_def entryLuz_def sampleEntry_def)
  have g: "sameGroup entryFour sampleEntry" "sameGroup sampleEntry entryFour"
    "\<not> sameGroup entryLuz sampleEntry" "\<not> sameGroup sampleEntry entryLuz"
    "\<not> sameGroup entryLuz entryFour" "\<not> sameGroup entryFour entryLuz"
    "sameGroup sampleEntry sampleEntry" "sameGroup entryFour entryFour"
    "sameGroup entryLuz entryLuz"
    by (simp_all add: sameGroup_def ascii_def entryFour_def entryLuz_def sampleEntry_def)
  have top: "filter (groupTop toUpperCaseAscii sampleResults ?es) ?es = [entryFour, entryLuz]"
    by (simp add: groupTop_def m e g)
  from getWinners_top_of_each_group [OF sf, of toUpperCaseAscii sampleResults]
  obtain ws where "getWinners toUpperCaseAscii sampleResults ?es = Inr ws"
    "mset (map w_entry ws) = mset (filter (groupTop toUpperCaseAscii sampleResults ?es) ?es)"
    by blast
  then have "\<exists>ws. getWinners toUpperCaseAscii sampleResults ?es = Inr ws
                \<and> mset (map w_entry ws) = mset [entryFour, entryLuz]"
    unfolding top by blast
  with s k m show ?thesis by blast
qed

text \<open>
  An entry with no match is validated, and its count 0 is the largest of its group, but
  it is not returned. Of two entries of different platforms and contests whose keys are
  the same string, only the one with more matches is returned. An entry with four matches
  whose status is empty is validated but does not pass the status filter, and the entry
  of its group with three matches is returned. And for an entry whose group key or
  result key is \<open>__proto__\<close>, \<open>getWinners\<close> returns nothing: it throws.
\<close>

theorem getWinners_group_maximum_counterexample:
  "validatedMatches toUpperCaseAscii sampleResults entryNone = Some 0
   \<and> getWinners toUpperCaseAscii sampleResults [entryNone] = Inr []
   \<and> platform clashEntryA \<noteq> platform clashEntryB
   \<and> validatedMatches toUpperCaseAscii clashResults clashEntryA = Some 4
   \<and> validatedMatches toUpperCaseAscii clashResults clashEntryB = Some 3
   \<and> map_sum id (map w_entry) (getWinners toUpperCaseAscii clashResults [clashEntryA, clashEntryB])
       = Inr [clashEntryA]
   \<and> sameGroup entryFourNoStatus sampleEntry
   \<and> validatedMatches toUpperCaseAscii sampleResults entryFourNoStatus = Some 4
   \<and> validatedMatches toUpperCaseAscii sampleResults sampleEntry = Some 3
   \<and> map_sum id (map w_entry)
         (getWinners toUpperCaseAscii sampleResults [sampleEntry, entryFourNoStatus])
       = Inr [sampleEntry]
   \<and> separatorFree entryProto
   \<and> groupKey entryProto = ascii ''__proto__''
   \<and> getWinners toUpperCaseAscii sampleResults [entryProto] = Inl TypeError
   \<and> separatorFree entryProtoResult
   \<and> resultKey (contest entryProtoResult) (drawDate entryProtoResult) = ascii ''__proto__''
   \<and> validateEntry toUpperCaseAscii sampleResults entryProtoResult = Inl TypeError
   \<and> getWinners toUpperCaseAscii sampleResults [entryProtoResult] = Inl TypeError"
  by (simp add: validatedMatches_def sameGroup_def separatorFree_def getWinners_def unsortedWinners_def grouped_def pushGroup_def groupKey_def eligible_def groupWinners_def getWinningLevel_def sortBy_def compareWinners_def validateEntry_def validityGate_def statusGate_def winnerCheck_def getContestResult_def resultKey_def setResults_def matchNumbers_def getPrizeTier_def objectPrototypeKeys_def Let_def ascii_def trim_def isWhiteSpace_def toUpperCaseAscii_def truthy_def orElse_def str_INVALIDO_def blockedPendingStatuses_def allowedValidStatuses_def
        entryNone_def clashEntryA_def clashEntryB_def clashResults_def entryFourNoStatus_def
        entryFour_def entryProto_def entryProtoResult_def sampleEntry_def sampleResults_def)

end
